theory Spec2Isabelle
  imports Main
begin

section \<open>Python values and exceptions\<close>

text \<open>
  A Python string is a sequence of code points; the model writes it as the list of their
  numbers. Python knows the code points below \<open>0x110000\<close>, the surrogates \<open>0xD800\<close> to
  \<open>0xDFFF\<close> among them. \<open>lit\<close> turns a literal of the theory into such a string.
\<close>

type_synonym pystr = "nat list"

definition lit :: "string \<Rightarrow> pystr" where
  "lit s = map of_char s"

text \<open>
  The values \<^verbatim>\<open>json.load\<close> produces: \<^verbatim>\<open>None\<close>, booleans, integers, strings, lists and
  dictionaries with string keys (an association list, looked up with \<open>map_of\<close>).
  JSON numbers with a fraction or an exponent (Python floats) are outside the model.
\<close>

datatype pyval =
    PNone
  | PBool bool
  | PInt int
  | PStr pystr
  | PList "pyval list"
  | PDict "(pystr \<times> pyval) list"

datatype exn =
    KeyError pystr
  | TypeError
  | AttributeError
  | OverflowError
  | InterfaceError
  | IntegrityError
  | OperationalError
  | UnicodeEncodeError
  | JSONDecodeError
  | OSError

text \<open>Sequencing of computations that may raise: the first exception wins.\<close>

definition sum_bind :: "exn + 'a \<Rightarrow> ('a \<Rightarrow> exn + 'b) \<Rightarrow> exn + 'b" where
  "sum_bind m f = (case m of Inl e \<Rightarrow> Inl e | Inr x \<Rightarrow> f x)"

text \<open>\<^verbatim>\<open>d[k]\<close>: only a dictionary can be subscripted by a string; a missing key raises.\<close>

fun py_getitem :: "pyval \<Rightarrow> pystr \<Rightarrow> exn + pyval" where
  "py_getitem (PDict kvs) k = (case map_of kvs k of None \<Rightarrow> Inl (KeyError k) | Some v \<Rightarrow> Inr v)"
| "py_getitem _ k = Inl TypeError"

text \<open>\<^verbatim>\<open>d.get(k, default)\<close>: only a dictionary has the method \<^verbatim>\<open>get\<close>.\<close>

fun py_get :: "pyval \<Rightarrow> pystr \<Rightarrow> pyval \<Rightarrow> exn + pyval" where
  "py_get (PDict kvs) k d = Inr (case map_of kvs k of None \<Rightarrow> d | Some v \<Rightarrow> v)"
| "py_get _ k d = Inl AttributeError"

text \<open>
  \<^verbatim>\<open>for x in v\<close>: a list yields its elements, a dictionary its keys, a string its
  characters; nothing else is iterable.
\<close>

fun py_iter :: "pyval \<Rightarrow> exn + pyval list" where
  "py_iter (PList xs) = Inr xs"
| "py_iter (PDict kvs) = Inr (map (\<lambda>kv. PStr (fst kv)) kvs)"
| "py_iter (PStr s) = Inr (map (\<lambda>c. PStr [c]) s)"
| "py_iter _ = Inl TypeError"

fun hashable :: "pyval \<Rightarrow> bool" where
  "hashable (PList _) = False"
| "hashable (PDict _) = False"
| "hashable _ = True"

section \<open>The encoding of list-valued fields: \<^verbatim>\<open>json.dumps\<close>\<close>

text \<open>
  \<^verbatim>\<open>json.dumps\<close> with its defaults (\<^verbatim>\<open>ensure_ascii=True\<close>, separators \<^verbatim>\<open>', '\<close> and
  \<^verbatim>\<open>': '\<close>). Inside a string the quote and the backslash are escaped with a backslash,
  backspace, form feed, newline, carriage return and tab get their letter, and every
  other character outside the range space to tilde is written as a backslash, the
  letter u and four lower-case hexadecimal digits (\<^verbatim>\<open>'\\u{0:04x}'.format(n)\<close>). A code
  point \<open>n\<close> from \<open>0x10000\<close> on is written as the two escapes of its surrogate pair,
  \<^verbatim>\<open>0xd800 | (((n - 0x10000) >> 10) & 0x3ff)\<close> and \<^verbatim>\<open>0xdc00 | ((n - 0x10000) & 0x3ff)\<close>;
  the shift and the mask are written as \<open>div\<close> and \<open>mod\<close>, and the \<^verbatim>\<open>|\<close>, whose operands
  share no bit, as a sum.
\<close>

fun nat_digits :: "nat \<Rightarrow> pystr" where
  "nat_digits n = (if n < 10 then [48 + n] else nat_digits (n div 10) @ [48 + n mod 10])"

declare nat_digits.simps [simp del]

definition py_str_int :: "int \<Rightarrow> pystr" where
  "py_str_int i = (if i < 0 then lit ''-'' @ nat_digits (nat (- i)) else nat_digits (nat i))"

definition hex_char :: "nat \<Rightarrow> nat" where
  "hex_char d = (if d < 10 then 48 + d else 87 + d)"

definition hex4 :: "nat \<Rightarrow> pystr" where
  "hex4 n = [hex_char (n div 4096 mod 16), hex_char (n div 256 mod 16),
             hex_char (n div 16 mod 16), hex_char (n mod 16)]"

definition escape_ascii :: "nat \<Rightarrow> pystr" where
  "escape_ascii n =
     (if n = 0x22 then [0x5C, 0x22]
      else if n = 0x5C then [0x5C, 0x5C]
      else if n = 0x08 then 0x5C # lit ''b''
      else if n = 0x0C then 0x5C # lit ''f''
      else if n = 0x0A then 0x5C # lit ''n''
      else if n = 0x0D then 0x5C # lit ''r''
      else if n = 0x09 then 0x5C # lit ''t''
      else if 0x20 \<le> n \<and> n \<le> 0x7E then [n]
      else if n < 0x10000 then 0x5C # lit ''u'' @ hex4 n
      else 0x5C # lit ''u'' @ hex4 (0xD800 + (n - 0x10000) div 0x400 mod 0x400) @
           0x5C # lit ''u'' @ hex4 (0xDC00 + (n - 0x10000) mod 0x400))"

definition encode_basestring_ascii :: "pystr \<Rightarrow> pystr" where
  "encode_basestring_ascii s = 0x22 # concat (map escape_ascii s) @ [0x22]"

fun join_sep :: "pystr \<Rightarrow> pystr list \<Rightarrow> pystr" where
  "join_sep sep [] = []"
| "join_sep sep [x] = x"
| "join_sep sep (x # y # ys) = x @ sep @ join_sep sep (y # ys)"

fun json_dumps :: "pyval \<Rightarrow> pystr" where
  "json_dumps PNone = lit ''null''"
| "json_dumps (PBool b) = (if b then lit ''true'' else lit ''false'')"
| "json_dumps (PInt i) = py_str_int i"
| "json_dumps (PStr s) = encode_basestring_ascii s"
| "json_dumps (PList xs) = lit ''['' @ join_sep (lit '', '') (map json_dumps xs) @ lit '']''"
| "json_dumps (PDict kvs) =
     lit ''{'' @ join_sep (lit '', '')
       (map (\<lambda>kv. encode_basestring_ascii (fst kv) @ lit '': '' @ json_dumps (snd kv)) kvs) @ lit ''}''"

section \<open>The persistent store\<close>

text \<open>
  The table \<^verbatim>\<open>area\<close> of \<^verbatim>\<open>initialize_database\<close>: nine columns of type TEXT, \<^verbatim>\<open>id\<close> the
  primary key, \<^verbatim>\<open>name\<close> declared NOT NULL. A column holds NULL (\<open>None\<close>) or a text. The
  table is the list of its rows in insertion order.
\<close>

record area_row =
  area_id :: "pystr option"
  name :: "pystr option"
  floor_id :: "pystr option"
  icon :: "pystr option"
  picture :: "pystr option"
  created_at :: "pystr option"
  modified_at :: "pystr option"
  aliases :: "pystr option"
  labels :: "pystr option"

type_synonym table = "area_row list"

text \<open>
  Binding a Python value to a statement parameter of a TEXT column: \<^verbatim>\<open>None\<close> is NULL, a
  string is stored in UTF-8, which has no encoding of a surrogate
  (\<^verbatim>\<open>UnicodeEncodeError\<close>), an integer (a boolean is one) that fits 64 bits is stored as
  its decimal text, and a list or a dictionary cannot be bound (\<^verbatim>\<open>sqlite3.InterfaceError\<close>;
  newer versions of Python raise \<^verbatim>\<open>sqlite3.ProgrammingError\<close> there). A text read from
  the store is decoded from UTF-8: it holds no surrogate and can be bound again.
\<close>

definition surrogate :: "nat \<Rightarrow> bool" where
  "surrogate c = (0xD800 \<le> c \<and> c \<le> 0xDFFF)"

definition encodable :: "pystr \<Rightarrow> bool" where
  "encodable s = list_all (\<lambda>c. \<not> surrogate c) s"

fun sql_bind :: "pyval \<Rightarrow> exn + pystr option" where
  "sql_bind PNone = Inr None"
| "sql_bind (PStr s) = (if encodable s then Inr (Some s) else Inl UnicodeEncodeError)"
| "sql_bind (PBool b) = Inr (Some (if b then lit ''1'' else lit ''0''))"
| "sql_bind (PInt i) =
     (if - (2 ^ 63) \<le> i \<and> i < 2 ^ 63 then Inr (Some (py_str_int i)) else Inl OverflowError)"
| "sql_bind (PList _) = Inl InterfaceError"
| "sql_bind (PDict _) = Inl InterfaceError"

text \<open>
  \<^verbatim>\<open>DELETE FROM area WHERE id = ?\<close>: the comparison with NULL is never true, so a NULL
  parameter deletes nothing.
\<close>

definition sql_delete :: "pystr option \<Rightarrow> table \<Rightarrow> table" where
  "sql_delete i t = (case i of None \<Rightarrow> t | Some k \<Rightarrow> filter (\<lambda>r. area_id r \<noteq> Some k) t)"

text \<open>
  \<^verbatim>\<open>INSERT OR REPLACE INTO area ... VALUES (...)\<close>: a NULL name violates NOT NULL and
  aborts the statement; otherwise the row with the same primary key, if any, is removed
  and the new row is added.
\<close>

definition sql_insert_or_replace :: "area_row \<Rightarrow> table \<Rightarrow> exn + table" where
  "sql_insert_or_replace r t =
     (if name r = None then Inl IntegrityError else Inr (sql_delete (area_id r) t @ [r]))"

section \<open>The Reconciler: \<^verbatim>\<open>update_database_with_new_areas\<close>\<close>

text \<open>
  The state of one call: \<open>db\<close> is the database file (what is committed), \<open>txn\<close> the rows
  as the open connection sees them (its uncommitted changes included), \<open>in_transaction\<close>
  the attribute of that name of the connection, \<open>calls\<close> counts the calls to the store
  made so far and \<open>printed\<close> is the output. The connection opens a transaction before a
  changing statement, whether the statement then succeeds or violates a constraint; only
  \<^verbatim>\<open>commit\<close> writes \<open>txn\<close> to \<open>db\<close> and ends the transaction.

  The store is an external collaborator: \<open>fails k c\<close> tells whether the store makes the
  \<open>k\<close>-th call of the run, the call \<open>c\<close>, raise; a call that is made to fail has no effect.
\<close>

datatype store_call = Connect | SelectIds | Delete "pystr option" | Upsert area_row | Commit | Close

datatype event =
    Deleted "pystr option"
  | Updated pyval pyval
  | DatabaseError exn
  | UpdateCompleted

record run =
  db :: table
  txn :: table
  in_transaction :: bool
  calls :: nat
  printed :: "event list"

type_synonym faults = "nat \<Rightarrow> store_call \<Rightarrow> bool"

definition and_then ::
  "(run \<Rightarrow> exn option \<times> run) \<Rightarrow> (run \<Rightarrow> exn option \<times> run) \<Rightarrow> run \<Rightarrow> exn option \<times> run" where
  "and_then f g s = (case f s of (Some e, s') \<Rightarrow> (Some e, s') | (None, s') \<Rightarrow> g s')"

fun writes :: "store_call \<Rightarrow> bool" where
  "writes (Delete i) = True"
| "writes (Upsert r) = True"
| "writes c = False"

definition store_effect :: "store_call \<Rightarrow> run \<Rightarrow> exn option \<times> run" where
  "store_effect c s =
     (case c of
        Connect \<Rightarrow> (None, s\<lparr>txn := db s, in_transaction := False\<rparr>)
      | SelectIds \<Rightarrow> (None, s)
      | Delete i \<Rightarrow> (None, s\<lparr>txn := sql_delete i (txn s), in_transaction := True\<rparr>)
      | Upsert r \<Rightarrow>
          (case sql_insert_or_replace r (txn s) of
             Inl e \<Rightarrow> (Some e, s\<lparr>in_transaction := True\<rparr>)
           | Inr t \<Rightarrow> (None, s\<lparr>txn := t, in_transaction := True\<rparr>))
      | Commit \<Rightarrow> (None, s\<lparr>db := txn s, in_transaction := False\<rparr>)
      | Close \<Rightarrow> (None, s))"

definition execute :: "faults \<Rightarrow> store_call \<Rightarrow> run \<Rightarrow> exn option \<times> run" where
  "execute fails c s =
     (if fails (calls s) c then (Some OperationalError, s\<lparr>calls := Suc (calls s)\<rparr>)
      else store_effect c (s\<lparr>calls := Suc (calls s)\<rparr>))"

text \<open>Line 48: the set of ids the \<^verbatim>\<open>SELECT\<close> returned.\<close>

definition existing_ids :: "run \<Rightarrow> pystr option list" where
  "existing_ids s = remdups (map area_id (txn s))"

text \<open>Line 51: \<^verbatim>\<open>{area['id'] for area in area_data}\<close>; a set holds hashable values only.\<close>

fun current_ids :: "pyval list \<Rightarrow> exn + pyval list" where
  "current_ids [] = Inr []"
| "current_ids (area # rest) =
     sum_bind (py_getitem area (lit ''id'')) (\<lambda>i.
       if \<not> hashable i then Inl TypeError
       else sum_bind (current_ids rest) (\<lambda>is. Inr (i # is)))"

text \<open>An id read from the store, as the Python value the \<^verbatim>\<open>SELECT\<close> returns.\<close>

fun to_py :: "pystr option \<Rightarrow> pyval" where
  "to_py None = PNone"
| "to_py (Some s) = PStr s"

text \<open>
  Lines 54 to 56: the ids of \<^verbatim>\<open>existing_ids - current_ids\<close>, each deleted and reported.
  Python leaves the order in which a set is traversed open; the model takes the order of
  the rows.
\<close>

fun delete_loop :: "faults \<Rightarrow> pystr option list \<Rightarrow> run \<Rightarrow> exn option \<times> run" where
  "delete_loop fails [] s = (None, s)"
| "delete_loop fails (i # rest) s =
     (case execute fails (Delete i) s of
        (Some e, s') \<Rightarrow> (Some e, s')
      | (None, s') \<Rightarrow> delete_loop fails rest (s'\<lparr>printed := printed s' @ [Deleted i]\<rparr>))"

text \<open>
  Lines 61 to 75: the parameters of the upsert, in the order the source evaluates them,
  and their binding. The result also carries \<^verbatim>\<open>area['name']\<close> and \<^verbatim>\<open>area['id']\<close> for the
  message of line 78.
\<close>

definition upsert_params :: "pyval \<Rightarrow> exn + (pyval \<times> pyval \<times> area_row)" where
  "upsert_params area =
     sum_bind (py_get area (lit ''aliases'') (PList [])) (\<lambda>al.
     sum_bind (py_get area (lit ''labels'') (PList [])) (\<lambda>lb.
     sum_bind (py_getitem area (lit ''id'')) (\<lambda>i.
     sum_bind (py_getitem area (lit ''name'')) (\<lambda>n.
     sum_bind (py_get area (lit ''floor_id'') PNone) (\<lambda>fl.
     sum_bind (py_get area (lit ''icon'') PNone) (\<lambda>ic.
     sum_bind (py_get area (lit ''picture'') PNone) (\<lambda>pc.
     sum_bind (py_get area (lit ''created_at'') PNone) (\<lambda>cr.
     sum_bind (py_get area (lit ''modified_at'') PNone) (\<lambda>md.
     sum_bind (sql_bind i) (\<lambda>i'.
     sum_bind (sql_bind n) (\<lambda>n'.
     sum_bind (sql_bind fl) (\<lambda>fl'.
     sum_bind (sql_bind ic) (\<lambda>ic'.
     sum_bind (sql_bind pc) (\<lambda>pc'.
     sum_bind (sql_bind cr) (\<lambda>cr'.
     sum_bind (sql_bind md) (\<lambda>md'.
       Inr (n, i,
         \<lparr>area_id = i', name = n', floor_id = fl', icon = ic', picture = pc',
          created_at = cr', modified_at = md',
          aliases = Some (json_dumps al), labels = Some (json_dumps lb)\<rparr>)))))))))))))))))"

fun upsert_loop :: "faults \<Rightarrow> pyval list \<Rightarrow> run \<Rightarrow> exn option \<times> run" where
  "upsert_loop fails [] s = (None, s)"
| "upsert_loop fails (area # rest) s =
     (case upsert_params area of
        Inl e \<Rightarrow> (Some e, s)
      | Inr (n, i, r) \<Rightarrow>
          (case execute fails (Upsert r) s of
             (Some e, s') \<Rightarrow> (Some e, s')
           | (None, s') \<Rightarrow> upsert_loop fails rest (s'\<lparr>printed := printed s' @ [Updated n i]\<rparr>)))"

text \<open>Lines 43 to 81: the body of the \<^verbatim>\<open>try\<close>.\<close>

definition try_body :: "faults \<Rightarrow> pyval \<Rightarrow> run \<Rightarrow> exn option \<times> run" where
  "try_body fails area_data =
     and_then (execute fails Connect)
    (and_then (execute fails SelectIds)
    (\<lambda>s. case sum_bind (py_iter area_data) current_ids of
            Inl e \<Rightarrow> (Some e, s)
          | Inr cur \<Rightarrow>
             (and_then (delete_loop fails (filter (\<lambda>i. to_py i \<notin> set cur) (existing_ids s)))
             (and_then (\<lambda>s. case py_iter area_data of
                               Inl e \<Rightarrow> (Some e, s)
                             | Inr areas \<Rightarrow> upsert_loop fails areas s)
             (and_then (execute fails Commit) (execute fails Close)))) s))"

text \<open>
  The whole function: every exception of the body is caught and printed (lines 83 and
  84), and the function returns \<^verbatim>\<open>None\<close> on both paths. Its result is the value returned
  (or an exception that leaves the function), the database file and the output.
\<close>

definition update_database_with_new_areas ::
  "faults \<Rightarrow> pyval \<Rightarrow> table \<times> event list \<Rightarrow> (exn + pyval) \<times> table \<times> event list" where
  "update_database_with_new_areas fails area_data w =
     (case try_body fails area_data
             \<lparr>db = fst w, txn = fst w, in_transaction = False, calls = 0, printed = snd w\<rparr> of
        (None, s) \<Rightarrow> (Inr PNone, db s, printed s)
      | (Some e, s) \<Rightarrow> (Inr PNone, db s, printed s @ [DatabaseError e]))"

text \<open>
  \<^verbatim>\<open>conn.close()\<close> (line 81) is on the path without exception only: a call that ends in
  the handler leaves its connection open, and with it the transaction the connection was
  in. This tells whether the call leaves an open transaction behind.
\<close>

definition leaves_transaction :: "faults \<Rightarrow> pyval \<Rightarrow> table \<times> event list \<Rightarrow> bool" where
  "leaves_transaction fails area_data w =
     (case try_body fails area_data
             \<lparr>db = fst w, txn = fst w, in_transaction = False, calls = 0, printed = snd w\<rparr> of
        (None, s) \<Rightarrow> False
      | (Some e, s) \<Rightarrow> in_transaction s)"

text \<open>The store is never faulty.\<close>

definition no_faults :: faults where
  "no_faults k c = False"

section \<open>The Record of the data model\<close>

text \<open>
  A record as the data model has it: a dictionary whose \<^verbatim>\<open>id\<close> and \<^verbatim>\<open>name\<close> are texts and
  whose \<^verbatim>\<open>floor_id\<close>, \<^verbatim>\<open>icon\<close>, \<^verbatim>\<open>picture\<close>, \<^verbatim>\<open>created_at\<close> and \<^verbatim>\<open>modified_at\<close> are each a
  text, \<^verbatim>\<open>null\<close> or missing. A text is a string none of whose characters is a
  surrogate. Nothing is asked of \<^verbatim>\<open>aliases\<close> and \<^verbatim>\<open>labels\<close>.
\<close>

fun is_text :: "pyval option \<Rightarrow> bool" where
  "is_text (Some (PStr s)) = encodable s"
| "is_text _ = False"

fun text_or_absent :: "pyval option \<Rightarrow> bool" where
  "text_or_absent None = True"
| "text_or_absent (Some PNone) = True"
| "text_or_absent (Some (PStr s)) = encodable s"
| "text_or_absent _ = False"

fun is_record :: "pyval \<Rightarrow> bool" where
  "is_record (PDict kvs) =
     (is_text (map_of kvs (lit ''id'')) \<and> is_text (map_of kvs (lit ''name'')) \<and>
      text_or_absent (map_of kvs (lit ''floor_id'')) \<and> text_or_absent (map_of kvs (lit ''icon'')) \<and>
      text_or_absent (map_of kvs (lit ''picture'')) \<and> text_or_absent (map_of kvs (lit ''created_at'')) \<and>
      text_or_absent (map_of kvs (lit ''modified_at'')))"
| "is_record _ = False"

text \<open>
  The row \<open>r\<close> holds the fields of the record \<open>a\<close>: each column is the record's value
  (NULL where the key is missing), \<^verbatim>\<open>aliases\<close> and \<^verbatim>\<open>labels\<close> in encoded form.
\<close>

definition mirrors :: "area_row \<Rightarrow> pyval \<Rightarrow> bool" where
  "mirrors r a =
     (py_getitem a (lit ''id'') = Inr (to_py (area_id r)) \<and>
      py_getitem a (lit ''name'') = Inr (to_py (name r)) \<and>
      py_get a (lit ''floor_id'') PNone = Inr (to_py (floor_id r)) \<and>
      py_get a (lit ''icon'') PNone = Inr (to_py (icon r)) \<and>
      py_get a (lit ''picture'') PNone = Inr (to_py (picture r)) \<and>
      py_get a (lit ''created_at'') PNone = Inr (to_py (created_at r)) \<and>
      py_get a (lit ''modified_at'') PNone = Inr (to_py (modified_at r)) \<and>
      (case py_get a (lit ''aliases'') (PList []) of Inl e \<Rightarrow> False | Inr v \<Rightarrow> aliases r = Some (json_dumps v)) \<and>
      (case py_get a (lit ''labels'') (PList []) of Inl e \<Rightarrow> False | Inr v \<Rightarrow> labels r = Some (json_dumps v)))"

section \<open>The consumer of the queue and the state it leaves\<close>

text \<open>
  \<^verbatim>\<open>database_updater\<close> takes the snapshots from the queue in arrival order and applies each;
  the loop itself never ends, the model runs it over the snapshots queued so far. An
  exception leaving the apply would end the thread.

  A call of the apply that ended in its handler has left its connection open. While such
  a connection is in a transaction it holds the write lock of the database file: a
  changing statement of a later connection waits for the default timeout and raises
  \<^verbatim>\<open>sqlite3.OperationalError\<close> (database is locked); reading, and a commit with nothing to
  write, go through. The abandoned connection is closed, and its transaction rolled
  back, when the runtime disposes of the object, which the garbage collector does at a
  time of its own. So the state between two applies is the table, whether an abandoned
  connection holds the lock, and the output; and each entry of the queue comes with the
  environment of its apply: whether the abandoned connections have been disposed of by
  then, and the behaviour of the store otherwise.
\<close>

record apply_env =
  collected :: bool
  store_faults :: faults

definition blocked :: "faults \<Rightarrow> faults" where
  "blocked fails k c = (fails k c \<or> writes c)"

text \<open>The store as the apply meets it, and whether the lock is held when the apply has ended.\<close>

definition store_during :: "bool \<Rightarrow> apply_env \<Rightarrow> faults" where
  "store_during locked e =
     (if locked \<and> \<not> collected e then blocked (store_faults e) else store_faults e)"

definition locked_after :: "bool \<Rightarrow> apply_env \<Rightarrow> pyval \<Rightarrow> table \<times> event list \<Rightarrow> bool" where
  "locked_after locked e area_data w =
     ((locked \<and> \<not> collected e) \<or> leaves_transaction (store_during locked e) area_data w)"

fun database_updater ::
  "(apply_env \<times> pyval) list \<Rightarrow> table \<times> bool \<times> event list \<Rightarrow> table \<times> bool \<times> event list" where
  "database_updater [] w = w"
| "database_updater (q # queue) (t, locked, out) =
     (case update_database_with_new_areas (store_during locked (fst q)) (snd q) (t, out) of
        (Inl e, t', out') \<Rightarrow> (t', locked_after locked (fst q) (snd q) (t, out), out')
      | (Inr v, t', out') \<Rightarrow>
          database_updater queue
            (t', locked_after locked (fst q) (snd q) (t, out), out' @ [UpdateCompleted]))"

text \<open>A snapshot of the data model: a list of records.\<close>

fun is_snapshot :: "pyval \<Rightarrow> bool" where
  "is_snapshot (PList areas) = list_all is_record areas"
| "is_snapshot _ = False"

text \<open>The record \<open>a\<close> has the id \<open>i\<close>.\<close>

definition has_id :: "pystr \<Rightarrow> pyval \<Rightarrow> bool" where
  "has_id i a = (py_getitem a (lit ''id'') = Inr (PStr i))"

text \<open>No row of the table has a NULL id.\<close>

definition keyed :: "table \<Rightarrow> bool" where
  "keyed t = list_all (\<lambda>r. area_id r \<noteq> None) t"

definition keyed_run :: "run \<Rightarrow> bool" where
  "keyed_run s = (keyed (db s) \<and> keyed (txn s))"

text \<open>
  Auxiliary notions for the proofs: the row that the upsert of a record writes, the effect
  of an upsert that succeeds, the rows that survive a sequence of upserts (of the rows with
  one id the last), and the table a fault-free apply leaves.
\<close>

definition row_of :: "pyval \<Rightarrow> area_row option" where
  "row_of a = (case upsert_params a of Inl e \<Rightarrow> None | Inr (n, i, r) \<Rightarrow> Some r)"

definition upsert :: "area_row \<Rightarrow> table \<Rightarrow> table" where
  "upsert r t = sql_delete (area_id r) t @ [r]"

fun latest_rows :: "table \<Rightarrow> table" where
  "latest_rows [] = []"
| "latest_rows (r # rs) =
     (if area_id r \<in> set (map area_id rs) then latest_rows rs else r # latest_rows rs)"

definition reconciled :: "pyval list \<Rightarrow> table \<Rightarrow> table" where
  "reconciled areas t = filter (\<lambda>r. area_id r = None) t @ latest_rows (List.map_filter row_of areas)"

section \<open>SnapshotReader and ChangeDetector\<close>

text \<open>
  Lines 97 to 99 and 142 to 144: \<^verbatim>\<open>json.load\<close> of the opened file, then
  \<^verbatim>\<open>data.get('data', {}).get('areas', [])\<close>. The argument is what opening and parsing the
  file gave: an exception, or the value of the document.
\<close>

definition read_areas :: "exn + pyval \<Rightarrow> exn + pyval" where
  "read_areas loaded =
     sum_bind loaded (\<lambda>data.
     sum_bind (py_get data (lit ''data'') (PDict [])) (\<lambda>d.
       py_get d (lit ''areas'') (PList [])))"

text \<open>
  One pass of the loop of \<^verbatim>\<open>poll_file_changes\<close> (lines 90 to 108). What the environment
  does during the pass is its input: the result of \<^verbatim>\<open>os.path.getmtime\<close> (only compared for
  equality, so its type is left open), the result of opening and parsing the file, and
  whether \<^verbatim>\<open>update_queue.put\<close> raises. The state is the local \<^verbatim>\<open>last_modified_time\<close>, the
  queue and the output. Every exception is caught by the handler of line 107, which
  prints it; the assignment of line 105 is the last statement of the \<^verbatim>\<open>try\<close>.
\<close>

datatype poll_event = DetectedChanges | ErrorPolling exn

record 'm tick =
  getmtime :: "exn + 'm"
  loaded :: "exn + pyval"
  put_raises :: "exn option"

record 'm poller =
  last_modified_time :: "'m option"
  update_queue :: "pyval list"
  polled :: "poll_event list"

text \<open>Line 95: the condition under which the file is read again.\<close>

definition changed :: "'m \<Rightarrow> 'm poller \<Rightarrow> bool" where
  "changed m s = (last_modified_time s = None \<or> Some m \<noteq> last_modified_time s)"

definition poll_iteration :: "'m tick \<Rightarrow> 'm poller \<Rightarrow> 'm poller" where
  "poll_iteration tk s =
     (case getmtime tk of
        Inl e \<Rightarrow> s\<lparr>polled := polled s @ [ErrorPolling e]\<rparr>
      | Inr current_modified_time \<Rightarrow>
          if changed current_modified_time s then
            (case read_areas (loaded tk) of
               Inl e \<Rightarrow> s\<lparr>polled := polled s @ [DetectedChanges, ErrorPolling e]\<rparr>
             | Inr areas \<Rightarrow>
                 (case put_raises tk of
                    Some e \<Rightarrow> s\<lparr>polled := polled s @ [DetectedChanges, ErrorPolling e]\<rparr>
                  | None \<Rightarrow>
                      s\<lparr>polled := polled s @ [DetectedChanges],
                        update_queue := update_queue s @ [areas],
                        last_modified_time := Some current_modified_time\<rparr>))
          else s)"

text \<open>The loop never ends; the model runs it over the passes made so far.\<close>

fun poll_file_changes :: "'m tick list \<Rightarrow> 'm poller \<Rightarrow> 'm poller" where
  "poll_file_changes [] s = s"
| "poll_file_changes (tk # ticks) s = poll_file_changes ticks (poll_iteration tk s)"

section \<open>Startup: \<^verbatim>\<open>main\<close> and the two threads\<close>

text \<open>
  The statements of \<^verbatim>\<open>main\<close> (lines 124 to 150) in program order, as positions of the main
  thread: \<^verbatim>\<open>initialize_database\<close> (which re-raises), the check that the file exists (which
  returns when it does not), the start of the polling thread, the start of the updater
  thread, the message that monitoring has begun, the initial sync (the read of lines 142
  to 144, then the apply of line 145) and the idle loop. A started thread runs
  interleaved with the main thread: \<open>Observe\<close> is a pass of \<^verbatim>\<open>poll_file_changes\<close> that
  publishes a snapshot (its first pass reads the file at once, \<^verbatim>\<open>last_modified_time\<close>
  being \<^verbatim>\<open>None\<close>), \<open>Consume\<close> is \<^verbatim>\<open>database_updater\<close> taking a snapshot from the queue and
  applying it. Both threads are daemons and end with the main thread.
\<close>

datatype loc =
  AtInitialize | AtExists | AtStartPolling | AtStartUpdater | AtMonitoring
  | AtSyncRead | AtSyncApply | Idle | Ended

datatype action =
  InitializeDatabase | InitializeRaises | FileExists | FileMissing
  | StartPolling | StartUpdater | PrintMonitoring | SyncRead | SyncReadRaises | SyncApply
  | Observe | Consume

record sys =
  main_at :: loc
  polling_started :: bool
  updater_started :: bool
  pending :: nat

definition startup :: sys where
  "startup = \<lparr>main_at = AtInitialize, polling_started = False, updater_started = False, pending = 0\<rparr>"

inductive step :: "sys \<Rightarrow> action \<Rightarrow> sys \<Rightarrow> bool" where
  initialize: "main_at s = AtInitialize \<Longrightarrow> step s InitializeDatabase (s\<lparr>main_at := AtExists\<rparr>)"
| initialize_raises: "main_at s = AtInitialize \<Longrightarrow> step s InitializeRaises (s\<lparr>main_at := Ended\<rparr>)"
| file_exists: "main_at s = AtExists \<Longrightarrow> step s FileExists (s\<lparr>main_at := AtStartPolling\<rparr>)"
| file_missing: "main_at s = AtExists \<Longrightarrow> step s FileMissing (s\<lparr>main_at := Ended\<rparr>)"
| start_polling:
    "main_at s = AtStartPolling \<Longrightarrow>
     step s StartPolling (s\<lparr>main_at := AtStartUpdater, polling_started := True\<rparr>)"
| start_updater:
    "main_at s = AtStartUpdater \<Longrightarrow>
     step s StartUpdater (s\<lparr>main_at := AtMonitoring, updater_started := True\<rparr>)"
| print_monitoring: "main_at s = AtMonitoring \<Longrightarrow> step s PrintMonitoring (s\<lparr>main_at := AtSyncRead\<rparr>)"
| sync_read: "main_at s = AtSyncRead \<Longrightarrow> step s SyncRead (s\<lparr>main_at := AtSyncApply\<rparr>)"
| sync_read_raises: "main_at s = AtSyncRead \<Longrightarrow> step s SyncReadRaises (s\<lparr>main_at := Ended\<rparr>)"
| sync_apply: "main_at s = AtSyncApply \<Longrightarrow> step s SyncApply (s\<lparr>main_at := Idle\<rparr>)"
| observe:
    "polling_started s \<Longrightarrow> main_at s \<noteq> Ended \<Longrightarrow>
     step s Observe (s\<lparr>pending := Suc (pending s)\<rparr>)"
| consume:
    "updater_started s \<Longrightarrow> main_at s \<noteq> Ended \<Longrightarrow> 0 < pending s \<Longrightarrow>
     step s Consume (s\<lparr>pending := pending s - 1\<rparr>)"

inductive reach :: "action list \<Rightarrow> sys \<Rightarrow> bool" where
  reach_start: "reach [] startup"
| reach_step: "reach tr s \<Longrightarrow> step s a s' \<Longrightarrow> reach (tr @ [a]) s'"

text \<open>What the position of the main thread says about the actions taken so far.\<close>

definition main_order :: "action list \<Rightarrow> sys \<Rightarrow> bool" where
  "main_order tr s =
     ((polling_started s \<longrightarrow> StartPolling \<in> set tr) \<and>
      (main_at s \<in> {AtStartUpdater, AtMonitoring, AtSyncRead, AtSyncApply, Idle} \<longrightarrow> StartPolling \<in> set tr) \<and>
      (main_at s \<in> {AtMonitoring, AtSyncRead, AtSyncApply, Idle} \<longrightarrow> StartUpdater \<in> set tr) \<and>
      (main_at s \<in> {AtSyncRead, AtSyncApply, Idle} \<longrightarrow> PrintMonitoring \<in> set tr) \<and>
      (main_at s \<in> {AtSyncApply, Idle} \<longrightarrow> SyncRead \<in> set tr) \<and>
      (0 < pending s \<longrightarrow> Observe \<in> set tr))"

section \<open>Reading the encoded lists back\<close>






definition is_ws :: "nat \<Rightarrow> bool" where
  "is_ws c = (c = 0x20 \<or> c = 0x09 \<or> c = 0x0A \<or> c = 0x0D)"

definition skip_ws :: "pystr \<Rightarrow> pystr" where
  "skip_ws s = dropWhile is_ws s"















section \<open>Basic facts\<close>

lemma of_char_less_256: "(of_char c :: nat) < 256"
proof -
  have "(of_char c :: nat) mod 256 = of_char c" by simp
  then show ?thesis by (metis mod_less_divisor zero_less_numeral)
qed

lemma lit_eq_iff [simp]: "lit a = lit b \<longleftrightarrow> a = b"
  by (simp add: lit_def inj_map_eq_map inj_def)

lemma lit_Nil [simp]: "lit [] = []"
  by (simp add: lit_def)


lemma lit_append [simp]: "lit a @ lit b = lit (a @ b)"
  by (simp add: lit_def)

lemma encodable_lit [simp]: "encodable (lit s)"
proof -
  have "\<not> surrogate (of_char c)" for c
    using of_char_less_256 [of c] unfolding surrogate_def by arith
  then show ?thesis by (simp add: encodable_def lit_def list_all_iff)
qed

lemma text_or_absent_get:
  assumes "text_or_absent (map_of kvs k)"
  obtains x where "py_get (PDict kvs) k PNone = Inr (to_py x)" and "sql_bind (to_py x) = Inr x"
proof (cases "map_of kvs k")
  case None
  then have "py_get (PDict kvs) k PNone = Inr (to_py None)" "sql_bind (to_py None) = Inr None" by simp_all
  then show ?thesis by (rule that)
next
  case (Some v)
  with assms consider "v = PNone" | s where "v = PStr s" "encodable s" by (cases v) simp_all
  then show ?thesis
  proof cases
    case 1
    with Some have "py_get (PDict kvs) k PNone = Inr (to_py None)" "sql_bind (to_py None) = Inr None" by simp_all
    then show ?thesis by (rule that)
  next
    case 2
    with Some have "py_get (PDict kvs) k PNone = Inr (to_py (Some s))" "sql_bind (to_py (Some s)) = Inr (Some s)" by simp_all
    then show ?thesis by (rule that)
  qed
qed

lemma is_text_getitem:
  assumes "is_text (map_of kvs k)"
  obtains s where "py_getitem (PDict kvs) k = Inr (PStr s)" and "sql_bind (PStr s) = Inr (Some s)"
proof -
  from assms obtain s where "map_of kvs k = Some (PStr s)" and "encodable s"
    by (cases "map_of kvs k" rule: is_text.cases) simp_all
  then show ?thesis using that by simp
qed

lemma sum_bind_Inr [simp]: "sum_bind (Inr x) f = f x"
  by (simp add: sum_bind_def)

lemma sum_bind_Inl [simp]: "sum_bind (Inl e) f = Inl e"
  by (simp add: sum_bind_def)

lemma upsert_params_record:
  assumes "is_record a"
  obtains n i r where "upsert_params a = Inr (PStr n, PStr i, r)"
    and "area_id r = Some i" and "name r = Some n" and "py_getitem a (lit ''id'') = Inr (PStr i)"
    and "mirrors r a"
proof -
  from assms obtain kvs where a: "a = PDict kvs" by (cases a) simp_all
  from assms a have t: "is_text (map_of kvs (lit ''id''))" "is_text (map_of kvs (lit ''name''))"
    and o: "text_or_absent (map_of kvs (lit ''floor_id''))" "text_or_absent (map_of kvs (lit ''icon''))"
      "text_or_absent (map_of kvs (lit ''picture''))" "text_or_absent (map_of kvs (lit ''created_at''))"
      "text_or_absent (map_of kvs (lit ''modified_at''))" by simp_all
  from t(1) obtain i where i: "py_getitem (PDict kvs) (lit ''id'') = Inr (PStr i)"
    and bi: "sql_bind (PStr i) = Inr (Some i)" by (rule is_text_getitem)
  from t(2) obtain n where n: "py_getitem (PDict kvs) (lit ''name'') = Inr (PStr n)"
    and bn: "sql_bind (PStr n) = Inr (Some n)" by (rule is_text_getitem)
  from o(1) obtain fl where fl: "py_get (PDict kvs) (lit ''floor_id'') PNone = Inr (to_py fl)" "sql_bind (to_py fl) = Inr fl"
    by (rule text_or_absent_get)
  from o(2) obtain ic where ic: "py_get (PDict kvs) (lit ''icon'') PNone = Inr (to_py ic)" "sql_bind (to_py ic) = Inr ic"
    by (rule text_or_absent_get)
  from o(3) obtain pc where pc: "py_get (PDict kvs) (lit ''picture'') PNone = Inr (to_py pc)" "sql_bind (to_py pc) = Inr pc"
    by (rule text_or_absent_get)
  from o(4) obtain cr where cr: "py_get (PDict kvs) (lit ''created_at'') PNone = Inr (to_py cr)" "sql_bind (to_py cr) = Inr cr"
    by (rule text_or_absent_get)
  from o(5) obtain md where md: "py_get (PDict kvs) (lit ''modified_at'') PNone = Inr (to_py md)" "sql_bind (to_py md) = Inr md"
    by (rule text_or_absent_get)
  let ?al = "case map_of kvs (lit ''aliases'') of None \<Rightarrow> PList [] | Some v \<Rightarrow> v"
  let ?lb = "case map_of kvs (lit ''labels'') of None \<Rightarrow> PList [] | Some v \<Rightarrow> v"
  let ?r = "\<lparr>area_id = Some i, name = Some n, floor_id = fl, icon = ic, picture = pc,
          created_at = cr, modified_at = md,
          aliases = Some (json_dumps ?al), labels = Some (json_dumps ?lb)\<rparr>"
  have al: "py_get (PDict kvs) (lit ''aliases'') (PList []) = Inr ?al" by simp
  have lb: "py_get (PDict kvs) (lit ''labels'') (PList []) = Inr ?lb" by simp
  have "upsert_params a = Inr (PStr n, PStr i, ?r)"
    unfolding upsert_params_def a by (simp only: al lb i n bi bn fl ic pc cr md sum_bind_Inr)
  moreover have "mirrors ?r a"
    unfolding mirrors_def a by (simp only: al lb i n fl ic pc cr md) simp
  ultimately show ?thesis using that [of n i ?r] i a by simp
qed

lemma execute_db: "c \<noteq> Commit \<Longrightarrow> db (snd (execute fails c s)) = db s"
  by (cases c) (auto simp: execute_def store_effect_def split: sum.splits)

lemma execute_printed: "printed (snd (execute fails c s)) = printed s"
  by (cases c) (auto simp: execute_def store_effect_def split: sum.splits)

lemma delete_loop_db: "db (snd (delete_loop fails ids s)) = db s"
proof (induction ids arbitrary: s)
  case Nil
  show ?case by simp
next
  case (Cons i rest)
  have d: "db (snd (execute fails (Delete i) s)) = db s" by (rule execute_db) simp
  show ?case
  proof (cases "execute fails (Delete i) s")
    case (Pair r s')
    with d have "db s' = db s" by simp
    with Pair Cons.IH [of "s'\<lparr>printed := printed s' @ [Deleted i]\<rparr>"] show ?thesis
      by (cases r) simp_all
  qed
qed

lemma upsert_loop_db: "db (snd (upsert_loop fails areas s)) = db s"
proof (induction areas arbitrary: s)
  case Nil
  show ?case by simp
next
  case (Cons a rest)
  show ?case
  proof (cases "upsert_params a")
    case (Inl e)
    then show ?thesis by simp
  next
    case (Inr p)
    obtain n i r where p: "p = (n, i, r)" by (cases p)
    have d: "db (snd (execute fails (Upsert r) s)) = db s" by (rule execute_db) simp
    show ?thesis
    proof (cases "execute fails (Upsert r) s")
      case (Pair x s')
      with d have "db s' = db s" by simp
      with Pair Inr p Cons.IH [of "s'\<lparr>printed := printed s' @ [Updated n i]\<rparr>"] show ?thesis
        by (cases x) simp_all
    qed
  qed
qed

lemma commit_raises: "execute fails Commit s = (Some e, s') \<Longrightarrow> db s' = db s"
  by (auto simp: execute_def store_effect_def split: if_splits)

lemma close_raises: "execute fails Close s = (Some e, s') \<Longrightarrow> fails (calls s) Close"
  by (auto simp: execute_def store_effect_def split: if_splits)

lemma and_then_Some:
  "and_then f g s = (Some e, s') \<Longrightarrow>
     f s = (Some e, s') \<or> (\<exists>s1. f s = (None, s1) \<and> g s1 = (Some e, s'))"
  by (auto simp: and_then_def split: prod.splits option.splits)

lemma and_then_aborts:
  assumes "\<And>s. db (snd (f s)) = db s"
    and "\<And>s e s'. g s = (Some e, s') \<Longrightarrow> db s' = db s"
    and "and_then f g s = (Some e, s')"
  shows "db s' = db s"
proof (cases "f s")
  case (Pair r s1)
  from assms(1) [of s] Pair have d: "db s1 = db s" by simp
  show ?thesis
  proof (cases r)
    case None
    with Pair assms(3) have "g s1 = (Some e, s')" by (simp add: and_then_def)
    from assms(2) [OF this] d show ?thesis by simp
  next
    case (Some x)
    with Pair assms(3) have "s' = s1" by (simp add: and_then_def)
    with d show ?thesis by simp
  qed
qed

lemma commit_close_aborts:
  assumes "\<forall>k. \<not> fails k Close"
    and "and_then (execute fails Commit) (execute fails Close) s = (Some e, s')"
  shows "db s' = db s"
proof -
  from and_then_Some [OF assms(2)] show ?thesis
  proof
    assume "execute fails Commit s = (Some e, s')"
    then show ?thesis by (rule commit_raises)
  next
    assume "\<exists>s1. execute fails Commit s = (None, s1) \<and> execute fails Close s1 = (Some e, s')"
    then obtain s1 where "execute fails Close s1 = (Some e, s')" by blast
    from close_raises [OF this] assms(1) show ?thesis by simp
  qed
qed

lemma upsert_step_db:
  "db (snd (case py_iter area_data of Inl e \<Rightarrow> (Some e, s) | Inr areas \<Rightarrow> upsert_loop fails areas s)) = db s"
  by (cases "py_iter area_data") (simp_all add: upsert_loop_db)

lemma try_body_raises_db:
  assumes "try_body fails area_data s = (Some e, s')" and "\<forall>k. \<not> fails k Close"
  shows "db s' = db s"
proof -
  let ?upserts = "\<lambda>s. case py_iter area_data of Inl e \<Rightarrow> (Some e, s) | Inr areas \<Rightarrow> upsert_loop fails areas s"
  let ?tail = "and_then ?upserts (and_then (execute fails Commit) (execute fails Close))"
  let ?diff = "\<lambda>s. case sum_bind (py_iter area_data) current_ids of
            Inl e \<Rightarrow> (Some e, s)
          | Inr cur \<Rightarrow>
             (and_then (delete_loop fails (filter (\<lambda>i. to_py i \<notin> set cur) (existing_ids s))) ?tail) s"
  have tail: "db s2 = db s1" if "?tail s1 = (Some x, s2)" for s1 x s2
  proof (rule and_then_aborts [OF _ _ that])
    show "db (snd (?upserts t)) = db t" for t by (rule upsert_step_db)
    show "db t' = db t" if "and_then (execute fails Commit) (execute fails Close) t = (Some y, t')" for t y t'
      using assms(2) that by (rule commit_close_aborts)
  qed
  have diff: "db s2 = db s1" if "?diff s1 = (Some x, s2)" for s1 x s2
  proof (cases "sum_bind (py_iter area_data) current_ids")
    case (Inl err)
    with that show ?thesis by simp
  next
    case (Inr cur)
    with that have "and_then (delete_loop fails (filter (\<lambda>i. to_py i \<notin> set cur) (existing_ids s1))) ?tail s1 = (Some x, s2)"
      by simp
    then show ?thesis
    proof (rule and_then_aborts [rotated 2])
      show "db (snd (delete_loop fails (filter (\<lambda>i. to_py i \<notin> set cur) (existing_ids s1)) t)) = db t" for t
        by (rule delete_loop_db)
      show "db t' = db t" if "?tail t = (Some y, t')" for t y t'
        using that by (rule tail)
    qed
  qed
  have sel: "db s2 = db s1" if "and_then (execute fails SelectIds) ?diff s1 = (Some x, s2)" for s1 x s2
    using that
  proof (rule and_then_aborts [rotated 2])
    show "db (snd (execute fails SelectIds t)) = db t" for t by (rule execute_db) simp
    show "db t' = db t" if "?diff t = (Some y, t')" for t y t'
      using that by (rule diff)
  qed
  have "and_then (execute fails Connect) (and_then (execute fails SelectIds) ?diff) s = (Some e, s')"
    using assms(1) by (simp add: try_body_def)
  then show ?thesis
  proof (rule and_then_aborts [rotated 2])
    show "db (snd (execute fails Connect t)) = db t" for t by (rule execute_db) simp
    show "db t' = db t" if "and_then (execute fails SelectIds) ?diff t = (Some y, t')" for t y t'
      using that by (rule sel)
  qed
qed

lemmas run_simps = try_body_def and_then_def execute_def store_effect_def existing_ids_def
  sql_insert_or_replace_def sql_delete_def upsert_params_def sum_bind_def
  update_database_with_new_areas_def

section \<open>The apply on a store without faults\<close>

lemma fold_sql_delete:
  "fold sql_delete ds t = filter (\<lambda>r. area_id r = None \<or> area_id r \<notin> set ds) t"
proof (induction ds arbitrary: t)
  case Nil
  show ?case by (simp add: filter_id_conv)
next
  case (Cons d ds)
  show ?case
  proof (cases d)
    case None
    then show ?thesis using Cons.IH [of t] by (auto simp: sql_delete_def intro: filter_cong)
  next
    case (Some k)
    then show ?thesis using Cons.IH [of "sql_delete d t"]
      by (auto simp: sql_delete_def intro: filter_cong)
  qed
qed

lemma set_latest_rows_ids: "set (map area_id (latest_rows rs)) = set (map area_id rs)"
  by (induction rs) auto

lemma latest_rows_subset: "set (latest_rows rs) \<subseteq> set rs"
  by (induction rs) auto

lemma distinct_latest_rows: "distinct (map area_id (latest_rows rs))"
  by (induction rs) (auto simp: set_latest_rows_ids [simplified])

lemma fold_upsert:
  assumes "\<forall>r\<in>set rs. area_id r \<noteq> None"
  shows "fold upsert rs t = filter (\<lambda>r. area_id r \<notin> set (map area_id rs)) t @ latest_rows rs"
  using assms
proof (induction rs arbitrary: t)
  case Nil
  show ?case by simp
next
  case (Cons x rs)
  from Cons.prems obtain k where k: "area_id x = Some k" by auto
  from Cons.prems have "\<forall>r\<in>set rs. area_id r \<noteq> None" by simp
  from Cons.IH [OF this, of "upsert x t"] k show ?case
    by (auto simp: upsert_def sql_delete_def intro: filter_cong)
qed

lemma delete_loop_no_faults:
  "fst (delete_loop no_faults ds s) = None \<and>
   txn (snd (delete_loop no_faults ds s)) = fold sql_delete ds (txn s)"
  by (induction ds arbitrary: s) (simp_all add: execute_def store_effect_def no_faults_def)

lemma row_of_record:
  assumes "is_record a"
  obtains i r where "row_of a = Some r" and "area_id r = Some i" and "name r \<noteq> None"
    and "py_getitem a (lit ''id'') = Inr (PStr i)" and "mirrors r a"
proof -
  from assms obtain n i r where "upsert_params a = Inr (PStr n, PStr i, r)"
    "area_id r = Some i" "name r = Some n" "py_getitem a (lit ''id'') = Inr (PStr i)" "mirrors r a"
    by (rule upsert_params_record)
  then show ?thesis using that [of r i] by (simp add: row_of_def)
qed

lemma upsert_loop_no_faults:
  assumes "list_all is_record areas"
  shows "fst (upsert_loop no_faults areas s) = None \<and>
         txn (snd (upsert_loop no_faults areas s)) = fold upsert (List.map_filter row_of areas) (txn s)"
  using assms
proof (induction areas arbitrary: s)
  case Nil
  show ?case by (simp add: List.map_filter_simps)
next
  case (Cons a areas)
  from Cons.prems have "is_record a" and rest: "list_all is_record areas" by simp_all
  from \<open>is_record a\<close> obtain n i r where p: "upsert_params a = Inr (PStr n, PStr i, r)"
    and nm: "name r = Some n" and "area_id r = Some i" "py_getitem a (lit ''id'') = Inr (PStr i)" "mirrors r a"
    by (rule upsert_params_record)
  from p have ro: "row_of a = Some r" by (simp add: row_of_def)
  let ?s1 = "s\<lparr>calls := Suc (calls s), txn := upsert r (txn s), in_transaction := True,
      printed := printed s @ [Updated (PStr n) (PStr i)]\<rparr>"
  have step: "upsert_loop no_faults (a # areas) s = upsert_loop no_faults areas ?s1"
    using p nm by (simp add: execute_def store_effect_def no_faults_def sql_insert_or_replace_def upsert_def)
  from Cons.IH [OF rest, of ?s1] step ro show ?case
    by (simp add: List.map_filter_simps)
qed

lemma current_ids_records:
  assumes "list_all is_record areas"
  shows "current_ids areas = Inr (map (\<lambda>r. to_py (area_id r)) (List.map_filter row_of areas))"
  using assms
proof (induction areas)
  case Nil
  show ?case by (simp add: List.map_filter_simps)
next
  case (Cons a areas)
  from Cons.prems have "is_record a" and rest: "list_all is_record areas" by simp_all
  from \<open>is_record a\<close> obtain i r where "row_of a = Some r" "area_id r = Some i"
    "py_getitem a (lit ''id'') = Inr (PStr i)" by (rule row_of_record)
  with Cons.IH [OF rest] show ?case by (simp add: List.map_filter_simps)
qed

lemma rows_ids_not_null:
  assumes "list_all is_record areas"
  shows "\<forall>r\<in>set (List.map_filter row_of areas). area_id r \<noteq> None \<and> name r \<noteq> None"
  using assms
proof (induction areas)
  case Nil
  show ?case by (simp add: List.map_filter_simps)
next
  case (Cons a areas)
  from Cons.prems have "is_record a" and rest: "list_all is_record areas" by simp_all
  from \<open>is_record a\<close> obtain i r where "row_of a = Some r" "area_id r = Some i" "name r \<noteq> None"
    by (rule row_of_record)
  with Cons.IH [OF rest] show ?case by (simp add: List.map_filter_simps)
qed

lemma to_py_inj: "to_py x = to_py y \<longleftrightarrow> x = y"
  by (cases x; cases y) simp_all

lemma to_py_image: "to_py i \<in> set (map (\<lambda>r. to_py (area_id r)) rs) \<longleftrightarrow> i \<in> set (map area_id rs)"
  by (auto simp: to_py_inj)

lemma try_body_no_faults:
  assumes "list_all is_record areas"
  shows "fst (try_body no_faults (PList areas) s) = None \<and>
         db (snd (try_body no_faults (PList areas) s)) = reconciled areas (db s)"
proof -
  let ?rows = "List.map_filter row_of areas"
  let ?s1 = "s\<lparr>txn := db s, in_transaction := False, calls := Suc (Suc (calls s))\<rparr>"
  let ?ds = "filter (\<lambda>i. i \<notin> set (map area_id ?rows)) (remdups (map area_id (db s)))"
  obtain s2 where d: "delete_loop no_faults ?ds ?s1 = (None, s2)" and t2: "txn s2 = fold sql_delete ?ds (db s)"
    using delete_loop_no_faults [of ?ds ?s1] by (cases "delete_loop no_faults ?ds ?s1") simp
  obtain s3 where u: "upsert_loop no_faults areas s2 = (None, s3)" and t3: "txn s3 = fold upsert ?rows (txn s2)"
    using upsert_loop_no_faults [OF assms, of s2] by (cases "upsert_loop no_faults areas s2") simp
  have body: "try_body no_faults (PList areas) s = (None, s3\<lparr>calls := Suc (Suc (calls s3)), db := txn s3, in_transaction := False\<rparr>)"
    using d u by (simp add: try_body_def and_then_def current_ids_records [OF assms] existing_ids_def
      execute_def store_effect_def no_faults_def to_py_image del: set_map)
  have nn: "\<forall>r\<in>set ?rows. area_id r \<noteq> None" using rows_ids_not_null [OF assms] by simp
  then have none: "None \<notin> set (map area_id ?rows)" by auto
  have "txn s3 = filter (\<lambda>r. area_id r \<notin> set (map area_id ?rows)) (fold sql_delete ?ds (db s)) @ latest_rows ?rows"
    using t3 t2 fold_upsert [OF nn] by simp
  also have "filter (\<lambda>r. area_id r \<notin> set (map area_id ?rows)) (fold sql_delete ?ds (db s)) =
     filter (\<lambda>r. area_id r = None) (db s)"
    unfolding fold_sql_delete filter_filter using none by (intro filter_cong) force+
  finally show ?thesis using body by (simp add: reconciled_def)
qed

lemma update_no_faults:
  assumes "list_all is_record areas"
  shows "fst (try_body no_faults (PList areas) \<lparr>db = t, txn = t, in_transaction = False, calls = 0, printed = p\<rparr>) = None"
    and "fst (update_database_with_new_areas no_faults (PList areas) (t, p)) = Inr PNone"
    and "fst (snd (update_database_with_new_areas no_faults (PList areas) (t, p))) = reconciled areas t"
proof -
  let ?s = "\<lparr>db = t, txn = t, in_transaction = False, calls = 0, printed = p\<rparr>"
  from try_body_no_faults [OF assms, of ?s]
  obtain s' where b: "try_body no_faults (PList areas) ?s = (None, s')" and d: "db s' = reconciled areas t"
    by (cases "try_body no_faults (PList areas) ?s") simp
  from b show "fst (try_body no_faults (PList areas) ?s) = None" by simp
  from b d show "fst (update_database_with_new_areas no_faults (PList areas) (t, p)) = Inr PNone"
    by (simp add: update_database_with_new_areas_def)
  from b d show "fst (snd (update_database_with_new_areas no_faults (PList areas) (t, p))) = reconciled areas t"
    by (simp add: update_database_with_new_areas_def)
qed

lemma rows_ids:
  assumes "list_all is_record areas"
  shows "Some i \<in> set (map area_id (List.map_filter row_of areas)) \<longleftrightarrow> (\<exists>a\<in>set areas. has_id i a)"
  using assms
proof (induction areas)
  case Nil
  show ?case by (simp add: List.map_filter_simps)
next
  case (Cons a areas)
  from Cons.prems have "is_record a" and rest: "list_all is_record areas" by simp_all
  from \<open>is_record a\<close> obtain j r where "row_of a = Some r" "area_id r = Some j"
    "py_getitem a (lit ''id'') = Inr (PStr j)" by (rule row_of_record)
  with Cons.IH [OF rest] show ?case by (auto simp: List.map_filter_simps has_id_def)
qed

lemma rows_mirror:
  assumes "list_all is_record areas" and "r \<in> set (List.map_filter row_of areas)"
  shows "\<exists>a\<in>set areas. row_of a = Some r \<and> mirrors r a"
  using assms
proof (induction areas)
  case Nil
  then show ?case by (simp add: List.map_filter_simps)
next
  case (Cons a areas)
  from Cons.prems have "is_record a" and rest: "list_all is_record areas" by simp_all
  from \<open>is_record a\<close> obtain j x where x: "row_of a = Some x" "mirrors x a" by (rule row_of_record)
  with Cons.prems(2) have "r = x \<or> r \<in> set (List.map_filter row_of areas)"
    by (simp add: List.map_filter_simps)
  then show ?case
  proof
    assume "r = x"
    with x show ?thesis by simp
  next
    assume "r \<in> set (List.map_filter row_of areas)"
    from Cons.IH [OF rest this] show ?thesis by auto
  qed
qed



section \<open>Sequences of applies\<close>

lemma update_returns: "fst (update_database_with_new_areas fails area_data w) = Inr PNone"
  by (simp add: update_database_with_new_areas_def split: prod.splits option.splits)

lemma database_updater_step:
  "database_updater (q # queue) (t, l, p) =
     database_updater queue
       (fst (snd (update_database_with_new_areas (store_during l (fst q)) (snd q) (t, p))),
        locked_after l (fst q) (snd q) (t, p),
        snd (snd (update_database_with_new_areas (store_during l (fst q)) (snd q) (t, p))) @ [UpdateCompleted])"
  using update_returns [of "store_during l (fst q)" "snd q" "(t, p)"]
  by (cases "update_database_with_new_areas (store_during l (fst q)) (snd q) (t, p)") simp

lemma database_updater_append:
  "database_updater (q1 @ q2) w = database_updater q2 (database_updater q1 w)"
proof (induction q1 arbitrary: w)
  case Nil
  show ?case by simp
next
  case (Cons q q1)
  obtain t l p where w: "w = (t, l, p)" by (cases w)
  show ?case unfolding w append_Cons database_updater_step by (rule Cons.IH)
qed

lemma keyed_sql_delete: "keyed t \<Longrightarrow> keyed (sql_delete i t)"
  by (cases i) (auto simp: keyed_def sql_delete_def list_all_iff)

lemma keyed_snoc: "keyed (t @ [r]) \<longleftrightarrow> keyed t \<and> area_id r \<noteq> None"
  by (simp add: keyed_def)

lemma execute_keyed:
  assumes "keyed_run s" and "\<And>r. c = Upsert r \<Longrightarrow> area_id r \<noteq> None"
  shows "keyed_run (snd (execute fails c s))"
proof (cases "fails (calls s) c")
  case True
  with assms(1) show ?thesis by (simp add: execute_def keyed_run_def)
next
  case False
  from assms show ?thesis
    by (cases c)
      (simp_all add: False execute_def store_effect_def keyed_run_def keyed_sql_delete
        sql_insert_or_replace_def keyed_snoc)
qed

lemma delete_loop_keyed: "keyed_run s \<Longrightarrow> keyed_run (snd (delete_loop fails ds s))"
proof (induction ds arbitrary: s)
  case Nil
  then show ?case by simp
next
  case (Cons i ds)
  from Cons.prems have k: "keyed_run (snd (execute fails (Delete i) s))" by (rule execute_keyed) simp
  show ?case
  proof (cases "execute fails (Delete i) s")
    case (Pair x s')
    with k have k': "keyed_run s'" by simp
    then have "keyed_run (s'\<lparr>printed := printed s' @ [Deleted i]\<rparr>)" by (simp add: keyed_run_def)
    from Cons.IH [OF this] Pair k' show ?thesis by (cases x) simp_all
  qed
qed

lemma upsert_loop_keyed:
  assumes "list_all is_record areas" and "keyed_run s"
  shows "keyed_run (snd (upsert_loop fails areas s))"
  using assms
proof (induction areas arbitrary: s)
  case Nil
  then show ?case by simp
next
  case (Cons a areas)
  from Cons.prems have "is_record a" and rest: "list_all is_record areas" by simp_all
  from \<open>is_record a\<close> obtain n i r where p: "upsert_params a = Inr (PStr n, PStr i, r)"
    and "name r = Some n" and id: "area_id r = Some i" "py_getitem a (lit ''id'') = Inr (PStr i)" "mirrors r a"
    by (rule upsert_params_record)
  from Cons.prems(2) have k: "keyed_run (snd (execute fails (Upsert r) s))"
    by (rule execute_keyed) (use id in simp)
  show ?case
  proof (cases "execute fails (Upsert r) s")
    case (Pair x s')
    with k have k': "keyed_run s'" by simp
    then have "keyed_run (s'\<lparr>printed := printed s' @ [Updated (PStr n) (PStr i)]\<rparr>)"
      by (simp add: keyed_run_def)
    from Cons.IH [OF rest this] Pair k' p show ?thesis by (cases x) simp_all
  qed
qed

lemma and_then_keyed:
  assumes "\<forall>s. keyed_run s \<longrightarrow> keyed_run (snd (f s))"
    and "\<forall>s. keyed_run s \<longrightarrow> keyed_run (snd (g s))"
  shows "\<forall>s. keyed_run s \<longrightarrow> keyed_run (snd (and_then f g s))"
proof (intro allI impI)
  fix s assume k: "keyed_run s"
  show "keyed_run (snd (and_then f g s))"
  proof (cases "f s")
    case (Pair x s1)
    from assms(1) k Pair have "keyed_run s1" by fastforce
    with assms(2) Pair show ?thesis by (cases x) (simp_all add: and_then_def)
  qed
qed

lemma try_body_keyed:
  assumes "list_all is_record areas" and "keyed_run s"
  shows "keyed_run (snd (try_body fails (PList areas) s))"
proof -
  let ?tail = "and_then (upsert_loop fails areas) (and_then (execute fails Commit) (execute fails Close))"
  let ?diff = "\<lambda>s. case current_ids areas of
            Inl e \<Rightarrow> (Some e, s)
          | Inr cur \<Rightarrow>
             and_then (delete_loop fails (filter (\<lambda>i. to_py i \<notin> set cur) (existing_ids s))) ?tail s"
  have eq: "try_body fails (PList areas) =
      and_then (execute fails Connect) (and_then (execute fails SelectIds) ?diff)"
    by (simp add: try_body_def cong: sum.case_cong)
  have ex: "\<forall>u. keyed_run u \<longrightarrow> keyed_run (snd (execute fails c u))"
    if "c = Connect \<or> c = SelectIds \<or> c = Commit \<or> c = Close" for c
    using that by (auto intro!: execute_keyed)
  have tail: "\<forall>u. keyed_run u \<longrightarrow> keyed_run (snd (?tail u))"
    by (intro and_then_keyed ex) (simp_all add: upsert_loop_keyed [OF assms(1)])
  have dels: "\<forall>u. keyed_run u \<longrightarrow> keyed_run (snd (and_then (delete_loop fails ds) ?tail u))" for ds
    by (intro and_then_keyed tail) (simp add: delete_loop_keyed)
  have diff: "\<forall>u. keyed_run u \<longrightarrow> keyed_run (snd (?diff u))"
    using dels by (cases "current_ids areas") simp_all
  have "\<forall>u. keyed_run u \<longrightarrow> keyed_run (snd (try_body fails (PList areas) u))"
    unfolding eq by (intro and_then_keyed ex diff) simp_all
  with assms(2) show ?thesis by simp
qed

lemma update_keyed:
  assumes "is_snapshot d" and "keyed t"
  shows "keyed (fst (snd (update_database_with_new_areas fails d (t, p))))"
proof -
  from assms(1) obtain areas where d: "d = PList areas" and r: "list_all is_record areas"
    by (cases d) simp_all
  let ?s = "\<lparr>db = t, txn = t, in_transaction = False, calls = 0, printed = p\<rparr>"
  from assms(2) have "keyed_run ?s" by (simp add: keyed_run_def)
  from try_body_keyed [OF r this, of fails] have "keyed (db (snd (try_body fails (PList areas) ?s)))"
    by (simp add: keyed_run_def)
  then show ?thesis unfolding d update_database_with_new_areas_def
    by (cases "try_body fails (PList areas) ?s") (auto split: option.splits)
qed

lemma database_updater_keyed:
  assumes "list_all (\<lambda>q. is_snapshot (snd q)) queue" and "keyed t"
  shows "keyed (fst (database_updater queue (t, l, p)))"
  using assms
proof (induction queue arbitrary: t l p)
  case Nil
  then show ?case by simp
next
  case (Cons q queue)
  from Cons.prems have q: "is_snapshot (snd q)" and rest: "list_all (\<lambda>q. is_snapshot (snd q)) queue" by simp_all
  from update_keyed [OF q Cons.prems(2)]
  have "keyed (fst (snd (update_database_with_new_areas (store_during l (fst q)) (snd q) (t, p))))" .
  from Cons.IH [OF rest this] show ?case unfolding database_updater_step .
qed

lemma reconciled_keyed:
  assumes "keyed t"
  shows "reconciled areas t = latest_rows (List.map_filter row_of areas)"
  using assms by (auto simp: reconciled_def keyed_def list_all_iff filter_empty_conv)

section \<open>What the apply prints\<close>

lemma delete_loop_printed: "\<exists>evs. printed (snd (delete_loop fails ds s)) = printed s @ evs"
proof (induction ds arbitrary: s)
  case Nil
  show ?case by simp
next
  case (Cons i ds)
  show ?case
  proof (cases "execute fails (Delete i) s")
    case (Pair x s')
    with execute_printed [of fails "Delete i" s] have p: "printed s' = printed s" by simp
    show ?thesis
    proof (cases x)
      case None
      from Cons.IH [of "s'\<lparr>printed := printed s' @ [Deleted i]\<rparr>"] obtain evs where
        "printed (snd (delete_loop fails ds (s'\<lparr>printed := printed s' @ [Deleted i]\<rparr>))) =
           printed s @ [Deleted i] @ evs" using p by auto
      with Pair None show ?thesis by auto
    next
      case (Some e)
      with Pair p show ?thesis by simp
    qed
  qed
qed

lemma upsert_loop_printed: "\<exists>evs. printed (snd (upsert_loop fails areas s)) = printed s @ evs"
proof (induction areas arbitrary: s)
  case Nil
  show ?case by simp
next
  case (Cons a areas)
  show ?case
  proof (cases "upsert_params a")
    case (Inl e)
    then show ?thesis by simp
  next
    case (Inr q)
    obtain n i r where q: "q = (n, i, r)" by (cases q)
    show ?thesis
    proof (cases "execute fails (Upsert r) s")
      case (Pair x s')
      with execute_printed [of fails "Upsert r" s] have p: "printed s' = printed s" by simp
      show ?thesis
      proof (cases x)
        case None
        from Cons.IH [of "s'\<lparr>printed := printed s' @ [Updated n i]\<rparr>"] obtain evs where
          "printed (snd (upsert_loop fails areas (s'\<lparr>printed := printed s' @ [Updated n i]\<rparr>))) =
             printed s @ [Updated n i] @ evs" using p by auto
        with Pair None Inr q show ?thesis by auto
      next
        case (Some e)
        with Pair p Inr q show ?thesis by simp
      qed
    qed
  qed
qed

lemma and_then_printed:
  assumes "\<forall>s. \<exists>evs. printed (snd (f s)) = printed s @ evs"
    and "\<forall>s. \<exists>evs. printed (snd (g s)) = printed s @ evs"
  shows "\<forall>s. \<exists>evs. printed (snd (and_then f g s)) = printed s @ evs"
proof
  fix s
  show "\<exists>evs. printed (snd (and_then f g s)) = printed s @ evs"
  proof (cases "f s")
    case (Pair x s1)
    from assms(1) obtain e1 where "printed (snd (f s)) = printed s @ e1" by blast
    with Pair have e1: "printed s1 = printed s @ e1" by simp
    from assms(2) obtain e2 where e2: "printed (snd (g s1)) = printed s1 @ e2" by blast
    from Pair e1 e2 show ?thesis by (cases x) (simp_all add: and_then_def)
  qed
qed

lemma try_body_printed: "\<exists>evs. printed (snd (try_body fails area_data s)) = printed s @ evs"
proof -
  let ?ups = "\<lambda>s. case py_iter area_data of Inl e \<Rightarrow> (Some e, s) | Inr areas \<Rightarrow> upsert_loop fails areas s"
  let ?tail = "and_then ?ups (and_then (execute fails Commit) (execute fails Close))"
  let ?diff = "\<lambda>s. case sum_bind (py_iter area_data) current_ids of
            Inl e \<Rightarrow> (Some e, s)
          | Inr cur \<Rightarrow>
             and_then (delete_loop fails (filter (\<lambda>i. to_py i \<notin> set cur) (existing_ids s))) ?tail s"
  have ex: "\<forall>u. \<exists>evs. printed (snd (execute fails c u)) = printed u @ evs" for c
    by (simp add: execute_printed)
  have ups: "\<forall>u. \<exists>evs. printed (snd (?ups u)) = printed u @ evs"
    by (cases "py_iter area_data") (simp_all add: upsert_loop_printed)
  have tail: "\<forall>u. \<exists>evs. printed (snd (?tail u)) = printed u @ evs"
    by (intro and_then_printed ex ups)
  have dels: "\<forall>u. \<exists>evs. printed (snd (and_then (delete_loop fails ds) ?tail u)) = printed u @ evs" for ds
    by (intro and_then_printed tail) (simp add: delete_loop_printed)
  have diff: "\<forall>u. \<exists>evs. printed (snd (?diff u)) = printed u @ evs"
  proof (cases "sum_bind (py_iter area_data) current_ids")
    case (Inl e)
    then show ?thesis by simp
  next
    case (Inr cur)
    show ?thesis
    proof
      fix u
      from dels [of "filter (\<lambda>i. to_py i \<notin> set cur) (existing_ids u)"] Inr
      show "\<exists>evs. printed (snd (?diff u)) = printed u @ evs" by simp
    qed
  qed
  have "\<forall>u. \<exists>evs. printed (snd (try_body fails area_data u)) = printed u @ evs"
    unfolding try_body_def by (intro and_then_printed ex diff)
  then show ?thesis by blast
qed

lemmas eval_simps = run_simps no_faults_def has_id_def keyed_def
  store_during_def locked_after_def leaves_transaction_def blocked_def

text \<open>
  An apply that fails after its first changing statement blocks the applies that follow,
  as long as its connection is not disposed of: here the commit of the first apply
  fails, and the two applies after it, on a store that does not fail, find the database
  locked and leave the table empty.
\<close>

lemma abandoned_transaction_blocks:
  "database_updater
     [(\<lparr>collected = False, store_faults = \<lambda>k c. k = 3\<rparr>,
       PList [PDict [(lit ''id'', PStr (lit ''X'')), (lit ''name'', PStr (lit ''Lost''))]]),
      (\<lparr>collected = False, store_faults = no_faults\<rparr>,
       PList [PDict [(lit ''id'', PStr (lit ''B'')), (lit ''name'', PStr (lit ''Bath''))]]),
      (\<lparr>collected = False, store_faults = no_faults\<rparr>,
       PList [PDict [(lit ''id'', PStr (lit ''A'')), (lit ''name'', PStr (lit ''Kitchen''))]])]
     ([], False, []) =
   ([], True,
    [Updated (PStr (lit ''Lost'')) (PStr (lit ''X'')), DatabaseError OperationalError, UpdateCompleted,
     DatabaseError OperationalError, UpdateCompleted,
     DatabaseError OperationalError, UpdateCompleted])"
  by (simp add: eval_simps)

text \<open>
  The same without any fault of the store: the second record of the first snapshot has no
  \<^verbatim>\<open>name\<close>, so the first apply raises \<^verbatim>\<open>KeyError\<close> after its first upsert; the apply of the
  next snapshot finds the database locked, and the table stays empty.
\<close>

lemma missing_name_blocks_next_apply:
  "database_updater
     [(\<lparr>collected = False, store_faults = no_faults\<rparr>,
       PList [PDict [(lit ''id'', PStr (lit ''A'')), (lit ''name'', PStr (lit ''Kitchen''))],
              PDict [(lit ''id'', PStr (lit ''B''))]]),
      (\<lparr>collected = False, store_faults = no_faults\<rparr>,
       PList [PDict [(lit ''id'', PStr (lit ''C'')), (lit ''name'', PStr (lit ''Cellar''))]])]
     ([], False, []) =
   ([], True,
    [Updated (PStr (lit ''Kitchen'')) (PStr (lit ''A'')), DatabaseError (KeyError (lit ''name'')),
     UpdateCompleted, DatabaseError OperationalError, UpdateCompleted])"
  by (simp add: eval_simps)

section \<open>The row stored for an id\<close>






section \<open>Decoding what \<^verbatim>\<open>json.dumps\<close> wrote\<close>














lemma skip_ws_simps [simp]:
  "skip_ws [] = []"
  "skip_ws (0x20 # s) = skip_ws s"
  "skip_ws (0x22 # s) = 0x22 # s"
  "skip_ws (0x2C # s) = 0x2C # s"
  "skip_ws (0x5D # s) = 0x5D # s"
  "skip_ws (0x5B # s) = 0x5B # s"
  by (simp_all add: skip_ws_def is_ws_def)






section \<open>Convergence and idempotence\<close>

text \<open>
  Claim C1, as stated, fails for some store states: a row whose id is NULL is never
  removed, since the \<^verbatim>\<open>DELETE\<close> of line 55 compares its id with \<^verbatim>\<open>=\<close>, which NULL never
  satisfies, and no upsert replaces it. From a table with such a row, applying a snapshot
  with one record and then the empty snapshot, on a store that does not fail, leaves that
  row, although the last snapshot has no record.
\<close>

theorem null_id_row_survives:
  "fst (database_updater
     [(\<lparr>collected = False, store_faults = no_faults\<rparr>,
       PList [PDict [(lit ''id'', PStr (lit ''A'')), (lit ''name'', PStr (lit ''Kitchen''))]]),
      (\<lparr>collected = False, store_faults = no_faults\<rparr>, PList [])]
     ([\<lparr>area_id = None, name = Some (lit ''Hall''), floor_id = None, icon = None,
        picture = None, created_at = None, modified_at = None,
        aliases = Some (lit ''[]''), labels = Some (lit ''[]'')\<rparr>], False, [])) =
   [\<lparr>area_id = None, name = Some (lit ''Hall''), floor_id = None, icon = None,
     picture = None, created_at = None, modified_at = None,
     aliases = Some (lit ''[]''), labels = Some (lit ''[]'')\<rparr>]"
  by (simp add: eval_simps)

text \<open>
  Claim C1, amended. Let snapshots of the data model be applied in order from a table in
  which every row has an id, the last of them by a store that does not fail and at a
  moment when no abandoned connection holds the lock (none was left, or they have been
  disposed of). Then the ids of the final table are exactly the ids of the last snapshot, no two
  rows share an id, every row holds the fields of a record of the last snapshot
  (\<^verbatim>\<open>aliases\<close> and \<^verbatim>\<open>labels\<close> encoded), and an id that was in the table before the last
  apply and is not in the last snapshot has no row afterwards. The earlier applies may
  fail in any way.
\<close>

theorem convergence:
  assumes "list_all (\<lambda>q. is_snapshot (snd q)) queue" and "list_all is_record areas" and "keyed t"
    and "collected e \<or> \<not> fst (snd (database_updater queue (t, l, p)))"
    and "store_faults e = no_faults"
  shows "set (map area_id (fst (database_updater (queue @ [(e, PList areas)]) (t, l, p)))) =
           {Some i |i. \<exists>a\<in>set areas. has_id i a}
       \<and> distinct (map area_id (fst (database_updater (queue @ [(e, PList areas)]) (t, l, p))))
       \<and> list_all (\<lambda>r. \<exists>a\<in>set areas. mirrors r a)
           (fst (database_updater (queue @ [(e, PList areas)]) (t, l, p)))
       \<and> (\<forall>i. Some i \<in> set (map area_id (fst (database_updater queue (t, l, p)))) \<and>
               \<not> (\<exists>a\<in>set areas. has_id i a) \<longrightarrow>
               Some i \<notin> set (map area_id (fst (database_updater (queue @ [(e, PList areas)]) (t, l, p)))))"
proof -
  let ?rows = "List.map_filter row_of areas"
  obtain t1 l1 p1 where w1: "database_updater queue (t, l, p) = (t1, l1, p1)"
    by (cases "database_updater queue (t, l, p)")
  from database_updater_keyed [OF assms(1) assms(3), of l p] w1 have k1: "keyed t1" by simp
  from assms(4) w1 have "collected e \<or> \<not> l1" by simp
  with assms(5) have free: "store_during l1 e = no_faults" by (auto simp: store_during_def)
  have T: "fst (database_updater (queue @ [(e, PList areas)]) (t, l, p)) = latest_rows ?rows"
    unfolding database_updater_append w1 database_updater_step
    using update_no_faults(3) [OF assms(2), of t1 p1] reconciled_keyed [OF k1] by (simp add: free)
  have nn: "\<forall>r\<in>set ?rows. area_id r \<noteq> None" using rows_ids_not_null [OF assms(2)] by simp
  have ids: "set (map area_id (latest_rows ?rows)) = {Some i |i. \<exists>a\<in>set areas. has_id i a}"
  proof (rule set_eqI)
    fix x
    show "x \<in> set (map area_id (latest_rows ?rows)) \<longleftrightarrow> x \<in> {Some i |i. \<exists>a\<in>set areas. has_id i a}"
    proof (cases x)
      case None
      with nn show ?thesis unfolding set_latest_rows_ids by auto
    next
      case (Some i)
      with rows_ids [OF assms(2), of i] show ?thesis unfolding set_latest_rows_ids by simp
    qed
  qed
  have mir: "list_all (\<lambda>r. \<exists>a\<in>set areas. mirrors r a) (latest_rows ?rows)"
    unfolding list_all_iff
  proof
    fix r assume "r \<in> set (latest_rows ?rows)"
    with latest_rows_subset have "r \<in> set ?rows" by auto
    from rows_mirror [OF assms(2) this] show "\<exists>a\<in>set areas. mirrors r a" by auto
  qed
  from ids mir distinct_latest_rows [of ?rows] show ?thesis unfolding T by auto
qed

theorem convergence_witness:
  "list_all (\<lambda>q. is_snapshot (snd q))
      [(\<lparr>collected = False, store_faults = \<lambda>k c. k = 3\<rparr>,
        PList [PDict [(lit ''id'', PStr (lit ''X'')), (lit ''name'', PStr (lit ''Lost''))]])]
   \<and> list_all is_record [PDict [(lit ''id'', PStr (lit ''A'')), (lit ''name'', PStr (lit ''Kitchen''))]]
   \<and> keyed [\<lparr>area_id = Some (lit ''B''), name = Some (lit ''Bath''), floor_id = None, icon = None,
              picture = None, created_at = None, modified_at = None,
              aliases = Some (lit ''[]''), labels = Some (lit ''[]'')\<rparr>]
   \<and> collected \<lparr>collected = True, store_faults = no_faults\<rparr>
   \<and> store_faults \<lparr>collected = True, store_faults = no_faults\<rparr> = no_faults
   \<and> map area_id (fst (database_updater
        [(\<lparr>collected = False, store_faults = \<lambda>k c. k = 3\<rparr>,
          PList [PDict [(lit ''id'', PStr (lit ''X'')), (lit ''name'', PStr (lit ''Lost''))]])]
        ([\<lparr>area_id = Some (lit ''B''), name = Some (lit ''Bath''), floor_id = None, icon = None,
           picture = None, created_at = None, modified_at = None,
           aliases = Some (lit ''[]''), labels = Some (lit ''[]'')\<rparr>], False, []))) = [Some (lit ''B'')]
   \<and> fst (snd (database_updater
        [(\<lparr>collected = False, store_faults = \<lambda>k c. k = 3\<rparr>,
          PList [PDict [(lit ''id'', PStr (lit ''X'')), (lit ''name'', PStr (lit ''Lost''))]])]
        ([\<lparr>area_id = Some (lit ''B''), name = Some (lit ''Bath''), floor_id = None, icon = None,
           picture = None, created_at = None, modified_at = None,
           aliases = Some (lit ''[]''), labels = Some (lit ''[]'')\<rparr>], False, [])))
   \<and> set (map area_id (fst (database_updater
        ([(\<lparr>collected = False, store_faults = \<lambda>k c. k = 3\<rparr>,
           PList [PDict [(lit ''id'', PStr (lit ''X'')), (lit ''name'', PStr (lit ''Lost''))]])] @
         [(\<lparr>collected = True, store_faults = no_faults\<rparr>,
           PList [PDict [(lit ''id'', PStr (lit ''A'')), (lit ''name'', PStr (lit ''Kitchen''))]])])
        ([\<lparr>area_id = Some (lit ''B''), name = Some (lit ''Bath''), floor_id = None, icon = None,
           picture = None, created_at = None, modified_at = None,
           aliases = Some (lit ''[]''), labels = Some (lit ''[]'')\<rparr>], False, [])))) =
       {Some i |i. \<exists>a\<in>set [PDict [(lit ''id'', PStr (lit ''A'')), (lit ''name'', PStr (lit ''Kitchen''))]]. has_id i a}
   \<and> map area_id (fst (database_updater
        ([(\<lparr>collected = False, store_faults = \<lambda>k c. k = 3\<rparr>,
           PList [PDict [(lit ''id'', PStr (lit ''X'')), (lit ''name'', PStr (lit ''Lost''))]])] @
         [(\<lparr>collected = True, store_faults = no_faults\<rparr>,
           PList [PDict [(lit ''id'', PStr (lit ''A'')), (lit ''name'', PStr (lit ''Kitchen''))]])])
        ([\<lparr>area_id = Some (lit ''B''), name = Some (lit ''Bath''), floor_id = None, icon = None,
           picture = None, created_at = None, modified_at = None,
           aliases = Some (lit ''[]''), labels = Some (lit ''[]'')\<rparr>], False, []))) = [Some (lit ''A'')]"
proof -
  let ?q = "[(\<lparr>collected = False, store_faults = \<lambda>k c. k = (3::nat)\<rparr>,
        PList [PDict [(lit ''id'', PStr (lit ''X'')), (lit ''name'', PStr (lit ''Lost''))]])]"
  let ?areas = "[PDict [(lit ''id'', PStr (lit ''A'')), (lit ''name'', PStr (lit ''Kitchen''))]]"
  let ?t = "[\<lparr>area_id = Some (lit ''B''), name = Some (lit ''Bath''), floor_id = None, icon = None,
              picture = None, created_at = None, modified_at = None,
              aliases = Some (lit ''[]''), labels = Some (lit ''[]'')\<rparr>]"
  let ?e = "\<lparr>collected = True, store_faults = no_faults\<rparr>"
  have h1: "list_all (\<lambda>q. is_snapshot (snd q)) ?q" by simp
  have h2: "list_all is_record ?areas" by simp
  have h3: "keyed ?t" by (simp add: keyed_def)
  have h4: "collected ?e" by simp
  have h5: "store_faults ?e = no_faults" by simp
  note t = convergence [OF h1 h2 h3 disjI1 [OF h4] h5, of False "[]"]
  have v1: "map area_id (fst (database_updater ?q (?t, False, []))) = [Some (lit ''B'')]"
    by (simp add: eval_simps)
  have v2: "fst (snd (database_updater ?q (?t, False, [])))"
    by (simp add: eval_simps)
  have v3: "map area_id (fst (database_updater (?q @ [(?e, PList ?areas)]) (?t, False, []))) = [Some (lit ''A'')]"
    by (simp add: eval_simps)
  from h1 h2 h3 h4 h5 v1 v2 t [THEN conjunct1] v3 show ?thesis by (intro conjI)
qed



section \<open>Failure of the apply\<close>

text \<open>
  Claim C3. Whenever the body of the apply raises (a store call fails during connect, the
  id read, a delete, an upsert or the commit, or a record cannot be read) and the
  failing call is not the final close, nothing is committed: the database after the
  call equals the database before it.
\<close>

theorem failed_apply_commits_nothing:
  assumes "fst (try_body fails area_data \<lparr>db = t, txn = t, in_transaction = False, calls = 0, printed = p\<rparr>) = Some e"
    and "\<forall>k. \<not> fails k Close"
  shows "fst (snd (update_database_with_new_areas fails area_data (t, p))) = t"
proof -
  obtain s' where b: "try_body fails area_data \<lparr>db = t, txn = t, in_transaction = False, calls = 0, printed = p\<rparr> = (Some e, s')"
    using assms(1) by (cases "try_body fails area_data \<lparr>db = t, txn = t, in_transaction = False, calls = 0, printed = p\<rparr>") simp
  from try_body_raises_db [OF b assms(2)] have "db s' = t" by simp
  with b show ?thesis by (simp add: update_database_with_new_areas_def)
qed

theorem failed_apply_commits_nothing_witness:
  "fst (try_body (\<lambda>k c. k = 3 \<and> c \<noteq> Close)
          (PList [PDict [(lit ''id'', PStr (lit ''A'')), (lit ''name'', PStr (lit ''Kitchen''))]])
          \<lparr>db = [\<lparr>area_id = Some (lit ''B''), name = Some (lit ''Bath''), floor_id = None, icon = None,
                  picture = None, created_at = None, modified_at = None,
                  aliases = Some (lit ''[]''), labels = Some (lit ''[]'')\<rparr>],
           txn = [\<lparr>area_id = Some (lit ''B''), name = Some (lit ''Bath''), floor_id = None, icon = None,
                  picture = None, created_at = None, modified_at = None,
                  aliases = Some (lit ''[]''), labels = Some (lit ''[]'')\<rparr>],
           in_transaction = False, calls = 0, printed = []\<rparr>) = Some OperationalError
   \<and> (\<forall>k. \<not> (k = 3 \<and> Close \<noteq> Close))
   \<and> fst (snd (update_database_with_new_areas (\<lambda>k c. k = 3 \<and> c \<noteq> Close)
          (PList [PDict [(lit ''id'', PStr (lit ''A'')), (lit ''name'', PStr (lit ''Kitchen''))]])
          ([\<lparr>area_id = Some (lit ''B''), name = Some (lit ''Bath''), floor_id = None, icon = None,
                  picture = None, created_at = None, modified_at = None,
                  aliases = Some (lit ''[]''), labels = Some (lit ''[]'')\<rparr>], []))) =
       [\<lparr>area_id = Some (lit ''B''), name = Some (lit ''Bath''), floor_id = None, icon = None,
                  picture = None, created_at = None, modified_at = None,
                  aliases = Some (lit ''[]''), labels = Some (lit ''[]'')\<rparr>]"
proof -
  let ?f = "\<lambda>k c. k = (3::nat) \<and> c \<noteq> Close"
  let ?t = "[\<lparr>area_id = Some (lit ''B''), name = Some (lit ''Bath''), floor_id = None, icon = None,
                  picture = None, created_at = None, modified_at = None,
                  aliases = Some (lit ''[]''), labels = Some (lit ''[]'')\<rparr>]"
  let ?d = "PList [PDict [(lit ''id'', PStr (lit ''A'')), (lit ''name'', PStr (lit ''Kitchen''))]]"
  have h1: "fst (try_body ?f ?d \<lparr>db = ?t, txn = ?t, in_transaction = False, calls = 0, printed = []\<rparr>) = Some OperationalError"
    by (simp add: run_simps)
  have h2: "\<forall>k. \<not> ?f k Close" by simp
  from failed_apply_commits_nothing [OF h1 h2] h1 show ?thesis by simp
qed

text \<open>
  Claim C4, as stated, fails: with a store whose every call fails, the apply of the empty
  snapshot raises inside its body, yet the function returns \<^verbatim>\<open>None\<close> and only prints the
  error.
\<close>

theorem apply_swallows_store_failure:
  "fst (try_body (\<lambda>k c. True) (PList []) \<lparr>db = [], txn = [], in_transaction = False, calls = 0, printed = []\<rparr>) = Some OperationalError
   \<and> update_database_with_new_areas (\<lambda>k c. True) (PList []) ([], []) =
       (Inr PNone, [], [DatabaseError OperationalError])"
  by (simp add: run_simps)

text \<open>
  Claim C4, amended. The apply returns \<^verbatim>\<open>None\<close> in every case and lets no exception out:
  when its body raises \<open>e\<close> (a failed store call included), the output of the call is what
  was printed before, followed by the line for the error \<open>e\<close>.
\<close>

theorem apply_returns_none_and_prints:
  "fst (update_database_with_new_areas fails area_data (t, p)) = Inr PNone \<and>
   (\<forall>e. fst (try_body fails area_data \<lparr>db = t, txn = t, in_transaction = False, calls = 0, printed = p\<rparr>) = Some e \<longrightarrow>
     (\<exists>evs. snd (snd (update_database_with_new_areas fails area_data (t, p))) = p @ evs @ [DatabaseError e]))"
proof (intro conjI allI impI)
  show "fst (update_database_with_new_areas fails area_data (t, p)) = Inr PNone" by (rule update_returns)
next
  fix e
  let ?s = "\<lparr>db = t, txn = t, in_transaction = False, calls = 0, printed = p\<rparr>"
  assume "fst (try_body fails area_data ?s) = Some e"
  then obtain s' where b: "try_body fails area_data ?s = (Some e, s')"
    by (cases "try_body fails area_data ?s") simp
  from try_body_printed [of fails area_data ?s] b obtain evs where "printed s' = p @ evs" by auto
  with b show "\<exists>evs. snd (snd (update_database_with_new_areas fails area_data (t, p))) = p @ evs @ [DatabaseError e]"
    by (simp add: update_database_with_new_areas_def)
qed

theorem apply_returns_none_and_prints_witness:
  "fst (try_body (\<lambda>k c. c = Commit) (PList []) \<lparr>db = [], txn = [], in_transaction = False, calls = 0, printed = []\<rparr>)
     = Some OperationalError
   \<and> fst (update_database_with_new_areas (\<lambda>k c. c = Commit) (PList []) ([], [])) = Inr PNone
   \<and> (\<exists>evs. snd (snd (update_database_with_new_areas (\<lambda>k c. c = Commit) (PList []) ([], []))) =
         [] @ evs @ [DatabaseError OperationalError])"
proof -
  have h: "fst (try_body (\<lambda>k c. c = Commit) (PList [])
      \<lparr>db = [], txn = [], in_transaction = False, calls = 0, printed = []\<rparr>) = Some OperationalError"
    by (simp add: run_simps)
  note t = apply_returns_none_and_prints [of "\<lambda>k c. c = Commit" "PList []" "[]" "[]"]
  from t have a: "fst (update_database_with_new_areas (\<lambda>k c. c = Commit) (PList []) ([], [])) = Inr PNone"
    by (rule conjunct1)
  from t [THEN conjunct2, THEN spec, THEN mp, OF h] a h show ?thesis by (intro conjI)
qed

section \<open>The reader and the change detector\<close>

text \<open>
  Claim C5, as stated, fails: a document that is a list, or whose \<^verbatim>\<open>data\<close> is \<^verbatim>\<open>null\<close>, makes
  the read raise \<^verbatim>\<open>AttributeError\<close>; and a value of \<^verbatim>\<open>areas\<close> that is no list is returned as
  it is, not replaced by the empty list.
\<close>

theorem reader_raises_on_other_shapes:
  "read_areas (Inr (PList [])) = Inl AttributeError
   \<and> read_areas (Inr (PDict [(lit ''data'', PNone)])) = Inl AttributeError
   \<and> read_areas (Inr (PDict [(lit ''data'', PDict [(lit ''areas'', PInt 5)])])) = Inr (PInt 5)"
  by (simp add: read_areas_def)

text \<open>
  Claim C5, amended. For a document that is an object, the read yields the empty list when
  the key \<^verbatim>\<open>data\<close> is missing, and when \<^verbatim>\<open>data\<close> is an object without the key \<^verbatim>\<open>areas\<close>; when
  \<^verbatim>\<open>areas\<close> is there, its value is returned unchanged. When the document is no object, or
  \<^verbatim>\<open>data\<close> is there and is no object, the read raises \<^verbatim>\<open>AttributeError\<close>. A failure to
  open or parse the file is passed on.
\<close>

theorem reader_defaults:
  "(map_of kvs (lit ''data'') = None \<longrightarrow> read_areas (Inr (PDict kvs)) = Inr (PList []))
   \<and> (map_of kvs (lit ''data'') = Some (PDict d) \<and> map_of d (lit ''areas'') = None \<longrightarrow>
        read_areas (Inr (PDict kvs)) = Inr (PList []))
   \<and> (map_of kvs (lit ''data'') = Some (PDict d) \<and> map_of d (lit ''areas'') = Some v \<longrightarrow>
        read_areas (Inr (PDict kvs)) = Inr v)
   \<and> (map_of kvs (lit ''data'') = Some x \<and> (\<forall>d. x \<noteq> PDict d) \<longrightarrow>
        read_areas (Inr (PDict kvs)) = Inl AttributeError)
   \<and> ((\<forall>kvs. doc \<noteq> PDict kvs) \<longrightarrow> read_areas (Inr doc) = Inl AttributeError)
   \<and> read_areas (Inl e) = Inl e"
proof (intro conjI impI)
  assume "map_of kvs (lit ''data'') = Some x \<and> (\<forall>d. x \<noteq> PDict d)"
  then show "read_areas (Inr (PDict kvs)) = Inl AttributeError"
    by (cases x) (simp_all add: read_areas_def)
next
  assume "\<forall>kvs. doc \<noteq> PDict kvs"
  then show "read_areas (Inr doc) = Inl AttributeError"
    by (cases doc) (simp_all add: read_areas_def)
qed (simp_all add: read_areas_def)

theorem reader_defaults_witness:
  "map_of [(lit ''version'', PInt 1)] (lit ''data'') = None
   \<and> read_areas (Inr (PDict [(lit ''version'', PInt 1)])) = Inr (PList [])
   \<and> map_of [(lit ''data'', PDict [(lit ''floors'', PList [])])] (lit ''data'') = Some (PDict [(lit ''floors'', PList [])])
   \<and> map_of [(lit ''floors'', PList [])] (lit ''areas'') = None
   \<and> read_areas (Inr (PDict [(lit ''data'', PDict [(lit ''floors'', PList [])])])) = Inr (PList [])
   \<and> (\<forall>kvs. PInt 3 \<noteq> PDict kvs)
   \<and> read_areas (Inr (PInt 3)) = Inl AttributeError"
proof -
  have h1: "map_of [(lit ''version'', PInt 1)] (lit ''data'') = None" by simp
  have h2: "map_of [(lit ''data'', PDict [(lit ''floors'', PList [])])] (lit ''data'') = Some (PDict [(lit ''floors'', PList [])])
      \<and> map_of [(lit ''floors'', PList [])] (lit ''areas'') = None" by simp
  have h3: "\<forall>kvs. PInt 3 \<noteq> PDict kvs" by simp
  note a = reader_defaults [where kvs = "[(lit ''version'', PInt 1)]", THEN conjunct1, THEN mp, OF h1]
  note b = reader_defaults [where kvs = "[(lit ''data'', PDict [(lit ''floors'', PList [])])]"
      and d = "[(lit ''floors'', PList [])]", THEN conjunct2, THEN conjunct1, THEN mp, OF h2]
  note c = reader_defaults [where doc = "PInt 3", THEN conjunct2, THEN conjunct2, THEN conjunct2,
      THEN conjunct2, THEN conjunct1, THEN mp, OF h3]
  from h1 a h2 [THEN conjunct1] h2 [THEN conjunct2] b h3 c show ?thesis by (intro conjI)
qed

text \<open>
  Claim C7. A pass of the change detector in which \<^verbatim>\<open>getmtime\<close>, the read or the
  \<^verbatim>\<open>put\<close> fails leaves \<^verbatim>\<open>last_modified_time\<close> and the queue as they were; when
  \<^verbatim>\<open>last_modified_time\<close> changes, the read and the \<^verbatim>\<open>put\<close> have succeeded, the snapshot is in
  the queue and the new value is the signal read; and after a pass that detected a change
  and failed, a next pass with the same signal still sees the change and, when it
  succeeds, publishes.
\<close>

theorem failed_poll_keeps_signal:
  "((\<exists>e. getmtime tk = Inl e) \<or> (\<exists>e. read_areas (loaded tk) = Inl e) \<or> (\<exists>e. put_raises tk = Some e) \<longrightarrow>
      last_modified_time (poll_iteration tk s) = last_modified_time s \<and>
      update_queue (poll_iteration tk s) = update_queue s)
   \<and> (last_modified_time (poll_iteration tk s) \<noteq> last_modified_time s \<longrightarrow>
        (\<exists>m areas. getmtime tk = Inr m \<and> read_areas (loaded tk) = Inr areas \<and> put_raises tk = None \<and>
           last_modified_time (poll_iteration tk s) = Some m \<and>
           update_queue (poll_iteration tk s) = update_queue s @ [areas]))
   \<and> (getmtime tk = Inr m \<and> changed m s \<and>
        ((\<exists>e. read_areas (loaded tk) = Inl e) \<or> (\<exists>e. put_raises tk = Some e)) \<and>
        getmtime tk' = Inr m \<and> read_areas (loaded tk') = Inr areas' \<and> put_raises tk' = None \<longrightarrow>
        changed m (poll_iteration tk s) \<and>
        update_queue (poll_file_changes [tk, tk'] s) = update_queue s @ [areas'] \<and>
        last_modified_time (poll_file_changes [tk, tk'] s) = Some m)"
proof (intro conjI impI)
  assume "(\<exists>e. getmtime tk = Inl e) \<or> (\<exists>e. read_areas (loaded tk) = Inl e) \<or> (\<exists>e. put_raises tk = Some e)"
  then show "last_modified_time (poll_iteration tk s) = last_modified_time s"
    and "update_queue (poll_iteration tk s) = update_queue s"
    by (auto simp: poll_iteration_def split: sum.splits option.splits)
next
  assume "last_modified_time (poll_iteration tk s) \<noteq> last_modified_time s"
  then show "\<exists>m areas. getmtime tk = Inr m \<and> read_areas (loaded tk) = Inr areas \<and> put_raises tk = None \<and>
           last_modified_time (poll_iteration tk s) = Some m \<and>
           update_queue (poll_iteration tk s) = update_queue s @ [areas]"
    by (auto simp: poll_iteration_def split: sum.splits option.splits if_splits)
next
  assume a: "getmtime tk = Inr m \<and> changed m s \<and>
        ((\<exists>e. read_areas (loaded tk) = Inl e) \<or> (\<exists>e. put_raises tk = Some e)) \<and>
        getmtime tk' = Inr m \<and> read_areas (loaded tk') = Inr areas' \<and> put_raises tk' = None"
  then have kept: "last_modified_time (poll_iteration tk s) = last_modified_time s"
    and queue: "update_queue (poll_iteration tk s) = update_queue s"
    by (auto simp: poll_iteration_def split: sum.splits option.splits)
  from a kept show again: "changed m (poll_iteration tk s)" by (simp add: changed_def)
  from a again queue
  show "update_queue (poll_file_changes [tk, tk'] s) = update_queue s @ [areas']"
    and "last_modified_time (poll_file_changes [tk, tk'] s) = Some m"
    by (simp_all add: poll_iteration_def [of tk'])
qed

theorem failed_poll_keeps_signal_witness:
  "getmtime \<lparr>getmtime = Inr (7::nat), loaded = Inl JSONDecodeError, put_raises = None\<rparr> = Inr 7
   \<and> changed (7::nat) \<lparr>last_modified_time = Some 3, update_queue = [], polled = []\<rparr>
   \<and> read_areas (loaded \<lparr>getmtime = Inr (7::nat), loaded = Inl JSONDecodeError, put_raises = None\<rparr>) =
       Inl JSONDecodeError
   \<and> last_modified_time (poll_iteration
        \<lparr>getmtime = Inr (7::nat), loaded = Inl JSONDecodeError, put_raises = None\<rparr>
        \<lparr>last_modified_time = Some 3, update_queue = [], polled = []\<rparr>) = Some 3
   \<and> update_queue (poll_file_changes
        [\<lparr>getmtime = Inr (7::nat), loaded = Inl JSONDecodeError, put_raises = None\<rparr>,
         \<lparr>getmtime = Inr 7, loaded = Inr (PDict []), put_raises = None\<rparr>]
        \<lparr>last_modified_time = Some 3, update_queue = [], polled = []\<rparr>) = [] @ [PList []]
   \<and> last_modified_time (poll_file_changes
        [\<lparr>getmtime = Inr (7::nat), loaded = Inl JSONDecodeError, put_raises = None\<rparr>,
         \<lparr>getmtime = Inr 7, loaded = Inr (PDict []), put_raises = None\<rparr>]
        \<lparr>last_modified_time = Some 3, update_queue = [], polled = []\<rparr>) = Some 7"
proof -
  let ?tk = "\<lparr>getmtime = Inr (7::nat), loaded = Inl JSONDecodeError, put_raises = None\<rparr>"
  let ?tk' = "\<lparr>getmtime = Inr (7::nat), loaded = Inr (PDict []), put_raises = None\<rparr>"
  let ?s = "\<lparr>last_modified_time = Some (3::nat), update_queue = [], polled = []\<rparr>"
  have g: "getmtime ?tk = Inr 7" by simp
  have c: "changed 7 ?s" by (simp add: changed_def)
  have r: "read_areas (loaded ?tk) = Inl JSONDecodeError" by (simp add: read_areas_def)
  have h1: "(\<exists>e. getmtime ?tk = Inl e) \<or> (\<exists>e. read_areas (loaded ?tk) = Inl e) \<or> (\<exists>e. put_raises ?tk = Some e)"
    using r by simp
  have h3: "getmtime ?tk = Inr 7 \<and> changed 7 ?s \<and>
        ((\<exists>e. read_areas (loaded ?tk) = Inl e) \<or> (\<exists>e. put_raises ?tk = Some e)) \<and>
        getmtime ?tk' = Inr 7 \<and> read_areas (loaded ?tk') = Inr (PList []) \<and> put_raises ?tk' = None"
    using r c by (simp add: read_areas_def)
  note t = failed_poll_keeps_signal [where tk = ?tk and s = ?s and tk' = ?tk' and m = 7 and areas' = "PList []"]
  note a = t [THEN conjunct1, THEN mp, OF h1, THEN conjunct1]
  note b = t [THEN conjunct2, THEN conjunct2, THEN mp, OF h3]
  have a': "last_modified_time (poll_iteration ?tk ?s) = Some 3" using a by simp
  have b1: "update_queue (poll_file_changes [?tk, ?tk'] ?s) = [] @ [PList []]"
    using b [THEN conjunct2, THEN conjunct1] by simp
  from g c r a' b1 b [THEN conjunct2, THEN conjunct2]
  show ?thesis by (intro conjI)
qed

section \<open>Startup order\<close>

lemma reach_main_order: "reach tr s \<Longrightarrow> main_order tr s"
proof (induction rule: reach.induct)
  case reach_start
  show ?case by (simp add: main_order_def startup_def)
next
  case (reach_step tr s a s')
  from reach_step.hyps(2) reach_step.IH show ?case
    by (cases rule: step.cases) (auto simp: main_order_def)
qed

lemma reach_prefix:
  assumes "reach (pre @ a # post) s"
  shows "\<exists>s1 s2. reach pre s1 \<and> step s1 a s2"
  using assms
proof (induction post arbitrary: s rule: rev_induct)
  case Nil
  from Nil.prems show ?case
  proof (cases rule: reach.cases)
    case reach_start
    then show ?thesis by simp
  next
    case (reach_step tr s0 b)
    then have "tr = pre" "b = a" by simp_all
    with reach_step show ?thesis by blast
  qed
next
  case (snoc x xs)
  from snoc.prems show ?case
  proof (cases rule: reach.cases)
    case reach_start
    then show ?thesis by simp
  next
    case (reach_step tr s0 b)
    then have "tr = pre @ a # xs" by simp
    with reach_step snoc.IH show ?thesis by blast
  qed
qed

text \<open>
  Claim C6, as stated, fails: \<^verbatim>\<open>main\<close> starts the polling thread before the initial sync, so
  there is a run in which the change detector has observed the file and published a
  snapshot while the main thread has not yet begun the initial sync.
\<close>

theorem detector_may_observe_before_initial_sync:
  "reach [InitializeDatabase, FileExists, StartPolling, Observe]
     \<lparr>main_at = AtStartUpdater, polling_started = True, updater_started = False, pending = 1\<rparr>
   \<and> SyncApply \<notin> set [InitializeDatabase, FileExists, StartPolling, Observe]"
proof -
  let ?s1 = "\<lparr>main_at = AtExists, polling_started = False, updater_started = False, pending = 0\<rparr>"
  let ?s2 = "\<lparr>main_at = AtStartPolling, polling_started = False, updater_started = False, pending = 0\<rparr>"
  let ?s3 = "\<lparr>main_at = AtStartUpdater, polling_started = True, updater_started = False, pending = 0\<rparr>"
  let ?s4 = "\<lparr>main_at = AtStartUpdater, polling_started = True, updater_started = False, pending = 1\<rparr>"
  have "step startup InitializeDatabase ?s1"
    using step.initialize [of startup] by (simp add: startup_def)
  with reach_start have "reach ([] @ [InitializeDatabase]) ?s1" by (rule reach_step)
  moreover have "step ?s1 FileExists ?s2" using step.file_exists [of ?s1] by simp
  ultimately have "reach (([] @ [InitializeDatabase]) @ [FileExists]) ?s2" by (rule reach_step)
  moreover have "step ?s2 StartPolling ?s3" using step.start_polling [of ?s2] by simp
  ultimately have "reach ((([] @ [InitializeDatabase]) @ [FileExists]) @ [StartPolling]) ?s3"
    by (rule reach_step)
  moreover have "step ?s3 Observe ?s4" using step.observe [of ?s3] by simp
  ultimately have "reach (((([] @ [InitializeDatabase]) @ [FileExists]) @ [StartPolling]) @ [Observe]) ?s4"
    by (rule reach_step)
  then show ?thesis by simp
qed

text \<open>
  Claim C6, amended. In every run from startup the initial sync comes after the start of
  both threads and after the message that monitoring has begun, and its apply comes after
  its read; the change detector observes only after it has been started, and the updater
  consumes only what the detector has published. Nothing orders the detector's first
  observation after the initial sync.
\<close>

theorem initial_sync_after_workers_start:
  assumes "reach tr s"
  shows "(\<forall>pre post. tr = pre @ SyncApply # post \<longrightarrow>
            StartPolling \<in> set pre \<and> StartUpdater \<in> set pre \<and> PrintMonitoring \<in> set pre \<and>
            SyncRead \<in> set pre)
       \<and> (\<forall>pre post. tr = pre @ Observe # post \<longrightarrow> StartPolling \<in> set pre)
       \<and> (\<forall>pre post. tr = pre @ Consume # post \<longrightarrow> Observe \<in> set pre)"
proof -
  have before: "\<exists>s1 s2. reach pre s1 \<and> step s1 a s2" if "tr = pre @ a # post" for pre a post
    using assms that reach_prefix by blast
  have sync: "StartPolling \<in> set pre \<and> StartUpdater \<in> set pre \<and> PrintMonitoring \<in> set pre \<and>
      SyncRead \<in> set pre" if "tr = pre @ SyncApply # post" for pre post
  proof -
    from before [OF that] obtain s1 s2 where r: "reach pre s1" and st: "step s1 SyncApply s2" by blast
    from st have "main_at s1 = AtSyncApply" by (cases rule: step.cases) simp_all
    with reach_main_order [OF r] show ?thesis by (simp add: main_order_def)
  qed
  have obs: "StartPolling \<in> set pre" if "tr = pre @ Observe # post" for pre post
  proof -
    from before [OF that] obtain s1 s2 where r: "reach pre s1" and st: "step s1 Observe s2" by blast
    from st have "polling_started s1" by (cases rule: step.cases) simp_all
    with reach_main_order [OF r] show ?thesis by (simp add: main_order_def)
  qed
  have cons: "Observe \<in> set pre" if "tr = pre @ Consume # post" for pre post
  proof -
    from before [OF that] obtain s1 s2 where r: "reach pre s1" and st: "step s1 Consume s2" by blast
    from st have "0 < pending s1" by (cases rule: step.cases) simp_all
    with reach_main_order [OF r] show ?thesis by (simp add: main_order_def)
  qed
  from sync obs cons show ?thesis by blast
qed

theorem initial_sync_after_workers_start_witness:
  "reach [InitializeDatabase, FileExists, StartPolling, StartUpdater, PrintMonitoring, SyncRead, SyncApply]
     \<lparr>main_at = Idle, polling_started = True, updater_started = True, pending = 0\<rparr>
   \<and> StartPolling \<in> set [InitializeDatabase, FileExists, StartPolling, StartUpdater, PrintMonitoring, SyncRead]
   \<and> StartUpdater \<in> set [InitializeDatabase, FileExists, StartPolling, StartUpdater, PrintMonitoring, SyncRead]
   \<and> PrintMonitoring \<in> set [InitializeDatabase, FileExists, StartPolling, StartUpdater, PrintMonitoring, SyncRead]
   \<and> SyncRead \<in> set [InitializeDatabase, FileExists, StartPolling, StartUpdater, PrintMonitoring, SyncRead]"
proof -
  let ?s1 = "\<lparr>main_at = AtExists, polling_started = False, updater_started = False, pending = 0\<rparr>"
  let ?s2 = "\<lparr>main_at = AtStartPolling, polling_started = False, updater_started = False, pending = 0\<rparr>"
  let ?s3 = "\<lparr>main_at = AtStartUpdater, polling_started = True, updater_started = False, pending = 0\<rparr>"
  let ?s4 = "\<lparr>main_at = AtMonitoring, polling_started = True, updater_started = True, pending = 0\<rparr>"
  let ?s5 = "\<lparr>main_at = AtSyncRead, polling_started = True, updater_started = True, pending = 0\<rparr>"
  let ?s6 = "\<lparr>main_at = AtSyncApply, polling_started = True, updater_started = True, pending = 0\<rparr>"
  let ?s7 = "\<lparr>main_at = Idle, polling_started = True, updater_started = True, pending = 0\<rparr>"
  let ?pre = "[InitializeDatabase, FileExists, StartPolling, StartUpdater, PrintMonitoring, SyncRead]"
  have "step startup InitializeDatabase ?s1"
    using step.initialize [of startup] by (simp add: startup_def)
  with reach_start have "reach ([] @ [InitializeDatabase]) ?s1" by (rule reach_step)
  moreover have "step ?s1 FileExists ?s2" using step.file_exists [of ?s1] by simp
  ultimately have "reach (([] @ [InitializeDatabase]) @ [FileExists]) ?s2" by (rule reach_step)
  moreover have "step ?s2 StartPolling ?s3" using step.start_polling [of ?s2] by simp
  ultimately have "reach ((([] @ [InitializeDatabase]) @ [FileExists]) @ [StartPolling]) ?s3"
    by (rule reach_step)
  moreover have "step ?s3 StartUpdater ?s4" using step.start_updater [of ?s3] by simp
  ultimately have "reach (((([] @ [InitializeDatabase]) @ [FileExists]) @ [StartPolling]) @ [StartUpdater]) ?s4"
    by (rule reach_step)
  moreover have "step ?s4 PrintMonitoring ?s5" using step.print_monitoring [of ?s4] by simp
  ultimately have "reach ((((([] @ [InitializeDatabase]) @ [FileExists]) @ [StartPolling]) @ [StartUpdater])
      @ [PrintMonitoring]) ?s5"
    by (rule reach_step)
  moreover have "step ?s5 SyncRead ?s6" using step.sync_read [of ?s5] by simp
  ultimately have "reach (((((([] @ [InitializeDatabase]) @ [FileExists]) @ [StartPolling]) @ [StartUpdater])
      @ [PrintMonitoring]) @ [SyncRead]) ?s6"
    by (rule reach_step)
  moreover have "step ?s6 SyncApply ?s7" using step.sync_apply [of ?s6] by simp
  ultimately have "reach ((((((([] @ [InitializeDatabase]) @ [FileExists]) @ [StartPolling]) @ [StartUpdater])
      @ [PrintMonitoring]) @ [SyncRead]) @ [SyncApply]) ?s7"
    by (rule reach_step)
  then have r: "reach (?pre @ SyncApply # []) ?s7" by simp
  have e: "?pre @ SyncApply # [] = ?pre @ SyncApply # []" by (rule refl)
  note t = initial_sync_after_workers_start [OF r, THEN conjunct1, THEN spec, THEN spec, THEN mp, OF e]
  from r have r': "reach [InitializeDatabase, FileExists, StartPolling, StartUpdater, PrintMonitoring, SyncRead, SyncApply] ?s7"
    by simp
  from r' t [THEN conjunct1] t [THEN conjunct2, THEN conjunct1]
    t [THEN conjunct2, THEN conjunct2, THEN conjunct1] t [THEN conjunct2, THEN conjunct2, THEN conjunct2]
  show ?thesis by (intro conjI)
qed

text \<open>
  The updater too may run before the initial sync: once both threads are started, the
  detector publishes and the updater applies the published snapshot while \<^verbatim>\<open>main\<close> has not
  yet printed that monitoring has begun.
\<close>

lemma updater_may_consume_before_initial_sync:
  "reach [InitializeDatabase, FileExists, StartPolling, StartUpdater, Observe, Consume]
     \<lparr>main_at = AtMonitoring, polling_started = True, updater_started = True, pending = 0\<rparr>
   \<and> SyncApply \<notin> set [InitializeDatabase, FileExists, StartPolling, StartUpdater, Observe, Consume]"
proof -
  let ?s1 = "\<lparr>main_at = AtExists, polling_started = False, updater_started = False, pending = 0\<rparr>"
  let ?s2 = "\<lparr>main_at = AtStartPolling, polling_started = False, updater_started = False, pending = 0\<rparr>"
  let ?s3 = "\<lparr>main_at = AtStartUpdater, polling_started = True, updater_started = False, pending = 0\<rparr>"
  let ?s4 = "\<lparr>main_at = AtMonitoring, polling_started = True, updater_started = True, pending = 0\<rparr>"
  let ?s5 = "\<lparr>main_at = AtMonitoring, polling_started = True, updater_started = True, pending = Suc 0\<rparr>"
  have "step startup InitializeDatabase ?s1"
    using step.initialize [of startup] by (simp add: startup_def)
  with reach_start have "reach ([] @ [InitializeDatabase]) ?s1" by (rule reach_step)
  moreover have "step ?s1 FileExists ?s2" using step.file_exists [of ?s1] by simp
  ultimately have "reach (([] @ [InitializeDatabase]) @ [FileExists]) ?s2" by (rule reach_step)
  moreover have "step ?s2 StartPolling ?s3" using step.start_polling [of ?s2] by simp
  ultimately have "reach ((([] @ [InitializeDatabase]) @ [FileExists]) @ [StartPolling]) ?s3"
    by (rule reach_step)
  moreover have "step ?s3 StartUpdater ?s4" using step.start_updater [of ?s3] by simp
  ultimately have "reach (((([] @ [InitializeDatabase]) @ [FileExists]) @ [StartPolling]) @ [StartUpdater]) ?s4"
    by (rule reach_step)
  moreover have "step ?s4 Observe ?s5" using step.observe [of ?s4] by simp
  ultimately have "reach ((((([] @ [InitializeDatabase]) @ [FileExists]) @ [StartPolling]) @ [StartUpdater])
      @ [Observe]) ?s5"
    by (rule reach_step)
  moreover have "step ?s5 Consume ?s4" using step.consume [of ?s5] by simp
  ultimately have "reach (((((([] @ [InitializeDatabase]) @ [FileExists]) @ [StartPolling]) @ [StartUpdater])
      @ [Observe]) @ [Consume]) ?s4"
    by (rule reach_step)
  then show ?thesis by simp
qed

section \<open>Round trip of the list-valued fields\<close>




section \<open>Records with the same id, records with missing keys\<close>





end
